theory Spec2Isabelle
  imports Main "HOL-Library.Product_Lexorder"
begin

section \<open>The Nurikabe solver of nurikabe.cpp\<close>

text \<open>
  A shallow embedding of \<^verbatim>\<open>src/sudoku/stl/nurikabe.cpp\<close>. Conventions:
  \<^item> \<^verbatim>\<open>int\<close> is modelled by \<open>int\<close>. \<^verbatim>\<open>stoi\<close> throws on a number that does not fit a 32-bit
    \<^verbatim>\<open>int\<close>; that is modelled. The numbers of a puzzle can be as large as that, so the
    arithmetic on \<^verbatim>\<open>m_total_black\<close> can leave the range of \<^verbatim>\<open>int\<close>: the model gives it
    the result of a two's-complement machine, reduced modulo \<open>2^32\<close> (\<open>wrap_int\<close>). The
    counts of cells (\<^verbatim>\<open>width * height\<close> as the number of cells, the sizes of regions, the
    depths of the searches) are bounded by the memory that holds the grid and are
    computed without reduction.
  \<^item> \<^verbatim>\<open>set<pair<int, int>>\<close> is a HOL set of pairs; where the source depends on the
    iteration order of the set (lexicographic on pairs) the model goes through
    \<open>sorted_list_of_set\<close>.
  \<^item> \<^verbatim>\<open>shared_ptr<Region>\<close> is an address (\<open>nat\<close>) into an explicit heap carried by the
    grid; a null pointer is \<open>None\<close>. \<^verbatim>\<open>make_shared\<close> returns the address \<open>heap_next\<close>
    and advances it. \<^verbatim>\<open>set<shared_ptr<Region>>\<close> is the list of its addresses in
    iteration (address) order.
  \<^item> \<^verbatim>\<open>m_cells[x][y]\<close> is a total function on coordinates; reading or writing outside
    the grid is undefined behaviour in the source, so statements about a cell assume
    \<open>valid\<close> coordinates.
  \<^item> Exceptions are values of type \<open>error\<close> on the left of a sum. The loops of
    \<^verbatim>\<open>unreachable\<close>, \<^verbatim>\<open>confined\<close> and of hypothetical search take a bound on the
    number of iterations; exceeding it is the value \<open>Inl OUT_OF_FUEL\<close>.
  \<^item> \<^verbatim>\<open>m_output\<close>, \<^verbatim>\<open>print\<close> and the \<^verbatim>\<open>verbose\<close> flag only record snapshots for the
    HTML log and are left out.
\<close>

subsection \<open>Errors, states, regions\<close>

datatype error =
    WIDTH_TOO_SMALL        \<comment> \<open>runtime error: width must be at least 1\<close>
  | HEIGHT_TOO_SMALL       \<comment> \<open>runtime error: height must be at least 1\<close>
  | BAD_CHARACTER          \<comment> \<open>runtime error: s must contain only digits, spaces, and newlines\<close>
  | WRONG_COUNT            \<comment> \<open>runtime error: s must contain width * height numbers and spaces\<close>
  | VERTICALLY_ADJACENT    \<comment> \<open>runtime error: s contains vertically adjacent numbers\<close>
  | STOI_OUT_OF_RANGE      \<comment> \<open>the out-of-range exception of stoi\<close>
  | LOGIC_ERROR            \<comment> \<open>any of the logic errors thrown by the solver\<close>
  | OUT_OF_FUEL            \<comment> \<open>a loop did not finish within the given number of iterations\<close>

text \<open>The enum \<^verbatim>\<open>State : int\<close>; numbered cells are the positive values.\<close>

type_synonym State = int

definition UNKNOWN :: State where "UNKNOWN = -3"
definition WHITE :: State where "WHITE = -2"
definition BLACK :: State where "BLACK = -1"

datatype SitRep = CONTRADICTION_FOUND | SOLUTION_FOUND | KEEP_GOING | CANNOT_PROCEED

type_synonym coord = "int \<times> int"

record Region =
  m_state :: State
  m_coords :: "coord set"
  m_unknowns :: "coord set"

definition white :: "Region \<Rightarrow> bool" where
  "white r \<longleftrightarrow> m_state r = WHITE"

definition black :: "Region \<Rightarrow> bool" where
  "black r \<longleftrightarrow> m_state r = BLACK"

definition numbered :: "Region \<Rightarrow> bool" where
  "numbered r \<longleftrightarrow> m_state r > 0"

text \<open>
  \<^verbatim>\<open>number()\<close> throws a logic error on a region that is not numbered. Every call in the
  source stands to the right of \<^verbatim>\<open>numbered() &&\<close> (or reads a region taken from a set of
  numbered regions), so the throwing branch is never reached and the model returns the
  state.
\<close>

definition number :: "Region \<Rightarrow> int" where
  "number r = m_state r"

definition size_R :: "Region \<Rightarrow> int" where
  "size_R r = int (card (m_coords r))"

definition contains :: "Region \<Rightarrow> int \<Rightarrow> int \<Rightarrow> bool" where
  "contains r x y \<longleftrightarrow> (x, y) \<in> m_coords r"

definition unk_size :: "Region \<Rightarrow> int" where
  "unk_size r = int (card (m_unknowns r))"

definition unk_erase :: "Region \<Rightarrow> int \<Rightarrow> int \<Rightarrow> Region" where
  "unk_erase r x y = r\<lparr>m_unknowns := m_unknowns r - {(x, y)}\<rparr>"

text \<open>The constructor of \<^verbatim>\<open>Region\<close>.\<close>

definition Region_ctor :: "State \<Rightarrow> int \<Rightarrow> int \<Rightarrow> coord set \<Rightarrow> error + Region" where
  "Region_ctor state x y unknowns =
     (if state = UNKNOWN then Inl LOGIC_ERROR
      else Inr \<lparr>m_state = state, m_coords = {(x, y)}, m_unknowns = unknowns\<rparr>)"

subsection \<open>The grid\<close>

record Grid =
  m_width :: int
  m_height :: int
  m_total_black :: int
  m_cells :: "coord \<Rightarrow> State \<times> nat option"
  m_regions :: "nat list"
  m_sitrep :: SitRep
  m_prng :: nat
  heap :: "nat \<Rightarrow> Region"
  heap_next :: nat

text \<open>
  An assignment to one cell of \<^verbatim>\<open>m_cells\<close> or to one object of the heap: the function
  \<open>f\<close> with the value at \<open>a\<close> replaced by \<open>b\<close>.
\<close>

definition update :: "('a \<Rightarrow> 'b) \<Rightarrow> 'a \<Rightarrow> 'b \<Rightarrow> 'a \<Rightarrow> 'b" where
  "update f a b x = (if x = a then b else f x)"

definition valid :: "Grid \<Rightarrow> int \<Rightarrow> int \<Rightarrow> bool" where
  "valid g x y \<longleftrightarrow> x \<ge> 0 \<and> x < m_width g \<and> y \<ge> 0 \<and> y < m_height g"

definition cell :: "Grid \<Rightarrow> int \<Rightarrow> int \<Rightarrow> State" where
  "cell g x y = fst (m_cells g (x, y))"

definition region :: "Grid \<Rightarrow> int \<Rightarrow> int \<Rightarrow> nat option" where
  "region g x y = snd (m_cells g (x, y))"

text \<open>The coordinates \<^verbatim>\<open>for_valid_neighbors\<close> visits, in the order of the calls.\<close>

definition for_valid_neighbors :: "Grid \<Rightarrow> int \<Rightarrow> int \<Rightarrow> coord list" where
  "for_valid_neighbors g x y =
     (if x > 0 then [(x - 1, y)] else []) @
     (if x + 1 < m_width g then [(x + 1, y)] else []) @
     (if y > 0 then [(x, y - 1)] else []) @
     (if y + 1 < m_height g then [(x, y + 1)] else [])"

definition insert_valid_unknown_neighbors :: "Grid \<Rightarrow> coord set \<Rightarrow> int \<Rightarrow> int \<Rightarrow> coord set" where
  "insert_valid_unknown_neighbors g s x y =
     fold (\<lambda>(a, b) s'. if cell g a b = UNKNOWN then insert (a, b) s' else s')
       (for_valid_neighbors g x y) s"

text \<open>The double loop \<^verbatim>\<open>for x < width: for y < height\<close>, as the list of its iterations.\<close>

definition cells_xy :: "int \<Rightarrow> int \<Rightarrow> coord list" where
  "cells_xy w h = concat (map (\<lambda>x. map (\<lambda>y. (x, y)) [0..h - 1]) [0..w - 1])"

definition add_region :: "Grid \<Rightarrow> int \<Rightarrow> int \<Rightarrow> error + Grid" where
  "add_region g x y =
     (case Region_ctor (cell g x y) x y (insert_valid_unknown_neighbors g {} x y) of
        Inl e \<Rightarrow> Inl e
      | Inr r \<Rightarrow>
          Inr (g\<lparr>m_cells := update (m_cells g) (x, y) (cell g x y, Some (heap_next g)),
                 m_regions := insort_insert (heap_next g) (m_regions g),
                 heap := update (heap g) (heap_next g) r,
                 heap_next := Suc (heap_next g)\<rparr>))"

text \<open>
  The loop \<^verbatim>\<open>for (i in r): region(i->first, i->second) = r1\<close> over the coordinates of a
  region, given in the order of the set.
\<close>

definition repoint ::
    "nat \<Rightarrow> coord list \<Rightarrow> (coord \<Rightarrow> State \<times> nat option) \<Rightarrow> coord \<Rightarrow> State \<times> nat option" where
  "repoint r1 cs cells = fold (\<lambda>c cells'. update cells' c (fst (cells' c), Some r1)) cs cells"

text \<open>
  \<^verbatim>\<open>fuse_regions\<close>: \<open>p1\<close> and \<open>p2\<close> are the two pointers, passed by value and swapped so
  that \<open>r1\<close> is the primary region.
\<close>

definition fuse_regions :: "Grid \<Rightarrow> nat option \<Rightarrow> nat option \<Rightarrow> Grid" where
  "fuse_regions g p1 p2 =
     (case p1 of None \<Rightarrow> g | Some a \<Rightarrow>
      (case p2 of None \<Rightarrow> g | Some b \<Rightarrow>
        if a = b then g
        else if numbered (heap g a) \<and> numbered (heap g b)
          then g\<lparr>m_sitrep := CONTRADICTION_FOUND\<rparr>
        else if black (heap g a) \<noteq> black (heap g b) then g
        else
          let (a', b') = (if size_R (heap g b) > size_R (heap g a) then (b, a) else (a, b));
              (r1, r2) = (if numbered (heap g b') then (b', a') else (a', b'));
              primary = (heap g r1)
                \<lparr>m_coords := m_coords (heap g r1) \<union> m_coords (heap g r2),
                 m_unknowns := m_unknowns (heap g r1) \<union> m_unknowns (heap g r2)\<rparr>
          in g\<lparr>m_cells := repoint r1 (sorted_list_of_set (m_coords (heap g r2))) (m_cells g),
                m_regions := removeAll r2 (m_regions g),
                heap := update (heap g) r1 primary\<rparr>))"

definition mark :: "State \<Rightarrow> int \<Rightarrow> int \<Rightarrow> Grid \<Rightarrow> error + Grid" where
  "mark s x y g =
     (if s \<noteq> WHITE \<and> s \<noteq> BLACK then Inl LOGIC_ERROR
      else if cell g x y \<noteq> UNKNOWN then Inr (g\<lparr>m_sitrep := CONTRADICTION_FOUND\<rparr>)
      else
        let g1 = g\<lparr>m_cells := update (m_cells g) (x, y) (s, region g x y)\<rparr>;
            g2 = g1\<lparr>heap := fold (\<lambda>i h. update h i (unk_erase (h i) x y)) (m_regions g1) (heap g1)\<rparr>
        in case add_region g2 x y of
             Inl e \<Rightarrow> Inl e
           | Inr g3 \<Rightarrow>
               Inr (fold (\<lambda>(a, b) g'. fuse_regions g' (region g' x y) (region g' a b))
                      (for_valid_neighbors g3 x y) g3))"

text \<open>The two marking loops of \<^verbatim>\<open>process\<close>.\<close>

fun mark_all :: "State \<Rightarrow> coord list \<Rightarrow> Grid \<Rightarrow> error + Grid" where
  "mark_all s [] g = Inr g"
| "mark_all s ((x, y) # ps) g =
     (case mark s x y g of Inl e \<Rightarrow> Inl e | Inr g' \<Rightarrow> mark_all s ps g')"

definition process :: "Grid \<Rightarrow> coord set \<Rightarrow> coord set \<Rightarrow> error + bool \<times> Grid" where
  "process g mark_as_black mark_as_white =
     (if mark_as_black = {} \<and> mark_as_white = {} then Inr (False, g)
      else case mark_all BLACK (sorted_list_of_set mark_as_black) g of
             Inl e \<Rightarrow> Inl e
           | Inr g1 \<Rightarrow>
               (case mark_all WHITE (sorted_list_of_set mark_as_white) g1 of
                  Inl e \<Rightarrow> Inl e
                | Inr g2 \<Rightarrow> Inr (True, g2)))"

subsection \<open>Construction from a string\<close>

definition is_digit :: "char \<Rightarrow> bool" where
  "is_digit c \<longleftrightarrow> 48 \<le> (of_char c :: nat) \<and> (of_char c :: nat) \<le> 57"

text \<open>
  The value a 32-bit \<^verbatim>\<open>int\<close> holds after an arithmetic operation whose exact result is
  \<open>n\<close>.
\<close>

definition wrap_int :: "int \<Rightarrow> int" where
  "wrap_int n = (n + 2147483648) mod 4294967296 - 2147483648"

text \<open>
  \<^verbatim>\<open>stoi\<close> on a non-empty run of decimal digits: the value, or the out-of-range
  exception when it does not fit a 32-bit \<^verbatim>\<open>int\<close>.
\<close>

definition digits_value :: "string \<Rightarrow> int" where
  "digits_value ds = foldl (\<lambda>a c. 10 * a + (int (of_char c) - 48)) 0 ds"

definition stoi :: "string \<Rightarrow> error + int" where
  "stoi ds = (if digits_value ds > 2147483647 then Inl STOI_OUT_OF_RANGE
              else Inr (digits_value ds))"

text \<open>
  The loop over the matches of the regular expression
  \<^verbatim>\<open>(\d+)|( )|(\n)|[^\d \n]\<close>: a maximal run of digits is one number, a space is a 0,
  a newline is skipped, any other character throws.
\<close>

function parse :: "string \<Rightarrow> error + int list" where
  "parse [] = Inr []"
| "parse (c # cs) =
     (if is_digit c then
        (case stoi (takeWhile is_digit (c # cs)) of
           Inl e \<Rightarrow> Inl e
         | Inr n \<Rightarrow>
             (case parse (dropWhile is_digit cs) of
                Inl e \<Rightarrow> Inl e
              | Inr v \<Rightarrow> Inr (n # v)))
      else if c = CHR '' '' then
        (case parse cs of Inl e \<Rightarrow> Inl e | Inr v \<Rightarrow> Inr (0 # v))
      else if c = CHR 0x0A then parse cs
      else Inl BAD_CHARACTER)"
  by pat_completeness auto
termination
  by (relation "measure length") (auto simp: length_dropWhile_le less_Suc_eq_le)

text \<open>The loop of the constructor over the cells, \<open>v\<close> being the parsed numbers.\<close>

fun ctor_loop :: "int list \<Rightarrow> coord list \<Rightarrow> Grid \<Rightarrow> error + Grid" where
  "ctor_loop v [] g = Inr g"
| "ctor_loop v ((x, y) # ps) g =
     (let n = v ! nat (x + y * m_width g) in
      if n > 0 then
        if valid g x (y - 1) \<and> cell g x (y - 1) > 0 then Inl VERTICALLY_ADJACENT
        else
          (case add_region (g\<lparr>m_cells := update (m_cells g) (x, y) (n, region g x y)\<rparr>) x y of
             Inl e \<Rightarrow> Inl e
           | Inr g' \<Rightarrow> ctor_loop v ps (g'\<lparr>m_total_black := wrap_int (m_total_black g' - n)\<rparr>))
      else ctor_loop v ps g)"

definition Grid_ctor :: "int \<Rightarrow> int \<Rightarrow> string \<Rightarrow> error + Grid" where
  "Grid_ctor width height s =
     (if width < 1 then Inl WIDTH_TOO_SMALL
      else if height < 1 then Inl HEIGHT_TOO_SMALL
      else case parse s of
             Inl e \<Rightarrow> Inl e
           | Inr v \<Rightarrow>
               if int (length v) \<noteq> width * height then Inl WRONG_COUNT
               else ctor_loop v (cells_xy width height)
                      \<lparr>m_width = width, m_height = height,
                       m_total_black = wrap_int (width * height),
                       m_cells = (\<lambda>p. (UNKNOWN, None)), m_regions = [],
                       m_sitrep = KEEP_GOING, m_prng = 1729,
                       heap = (\<lambda>i. \<lparr>m_state = UNKNOWN, m_coords = {}, m_unknowns = {}\<rparr>),
                       heap_next = 0\<rparr>)"

subsection \<open>Counting the known cells\<close>

definition known :: "Grid \<Rightarrow> int" where
  "known g =
     int (length (filter (\<lambda>(x, y). cell g x y \<noteq> UNKNOWN) (cells_xy (m_width g) (m_height g))))"

subsection \<open>The cheap deduction rules\<close>

text \<open>
  Each rule computes the two sets \<^verbatim>\<open>mark_as_black\<close> and \<^verbatim>\<open>mark_as_white\<close> by a loop and
  hands them to \<^verbatim>\<open>process\<close>. The loop is the function named \<open>_marks\<close>; the rule itself
  keeps the name of the source.
\<close>

definition complete_islands_marks :: "Grid \<Rightarrow> coord set \<times> coord set" where
  "complete_islands_marks g =
     fold (\<lambda>i (mark_as_black, mark_as_white).
             let r = heap g i in
             if numbered r \<and> size_R r = number r
             then (mark_as_black \<union> m_unknowns r, mark_as_white)
             else (mark_as_black, mark_as_white))
       (m_regions g) ({}, {})"

definition analyze_complete_islands :: "Grid \<Rightarrow> error + bool \<times> Grid" where
  "analyze_complete_islands g =
     (case complete_islands_marks g of (mark_as_black, mark_as_white) \<Rightarrow>
        process g mark_as_black mark_as_white)"

text \<open>The liberties of a region in the iteration order of the set.\<close>

definition unk_list :: "Region \<Rightarrow> coord list" where
  "unk_list r = sorted_list_of_set (m_unknowns r)"

definition partial :: "Grid \<Rightarrow> Region \<Rightarrow> bool" where
  "partial g r \<longleftrightarrow>
     black r \<and> size_R r < m_total_black g \<or> white r \<or> numbered r \<and> size_R r < number r"

definition single_liberties_marks :: "Grid \<Rightarrow> coord set \<times> coord set" where
  "single_liberties_marks g =
     fold (\<lambda>i (mark_as_black, mark_as_white).
             let r = heap g i in
             if partial g r \<and> unk_size r = 1 then
               if black r then (insert (hd (unk_list r)) mark_as_black, mark_as_white)
               else (mark_as_black, insert (hd (unk_list r)) mark_as_white)
             else (mark_as_black, mark_as_white))
       (m_regions g) ({}, {})"

definition analyze_single_liberties :: "Grid \<Rightarrow> error + bool \<times> Grid" where
  "analyze_single_liberties g =
     (case single_liberties_marks g of (mark_as_black, mark_as_white) \<Rightarrow>
        process g mark_as_black mark_as_white)"

text \<open>
  The body of the loop of \<^verbatim>\<open>analyze_dual_liberties\<close> for one region: the far cell it
  inserts into \<^verbatim>\<open>mark_as_black\<close>, if any.
\<close>

definition dual_liberties_step :: "Grid \<Rightarrow> Region \<Rightarrow> coord set \<Rightarrow> coord set" where
  "dual_liberties_step g r mark_as_black =
     (if numbered r \<and> size_R r = number r - 1 \<and> unk_size r = 2 then
        let x1 = fst (unk_list r ! 0); y1 = snd (unk_list r ! 0);
            x2 = fst (unk_list r ! 1); y2 = snd (unk_list r ! 1)
        in if \<bar>x1 - x2\<bar> = 1 \<and> \<bar>y1 - y2\<bar> = 1 then
             let p = (if contains r x1 y2 then (x2, y1) else (x1, y2))
             in if cell g (fst p) (snd p) = UNKNOWN then insert p mark_as_black
                else mark_as_black
           else mark_as_black
      else mark_as_black)"

definition dual_liberties_marks :: "Grid \<Rightarrow> coord set \<times> coord set" where
  "dual_liberties_marks g =
     (fold (\<lambda>i mark_as_black. dual_liberties_step g (heap g i) mark_as_black) (m_regions g) {},
      {})"

definition analyze_dual_liberties :: "Grid \<Rightarrow> error + bool \<times> Grid" where
  "analyze_dual_liberties g =
     (case dual_liberties_marks g of (mark_as_black, mark_as_white) \<Rightarrow>
        process g mark_as_black mark_as_white)"

subsection \<open>Reachability\<close>

definition impossibly_big_white_region :: "Grid \<Rightarrow> int \<Rightarrow> bool" where
  "impossibly_big_white_region g n \<longleftrightarrow>
     \<not> list_ex (\<lambda>i. numbered (heap g i) \<and> size_R (heap g i) + n + 1 \<le> number (heap g i))
         (m_regions g)"

text \<open>
  The white and the numbered regions next to a cell, as two sets of pointers
  (the first lambda of the loop of \<^verbatim>\<open>unreachable\<close>).
\<close>

definition adjacent_regions :: "Grid \<Rightarrow> int \<Rightarrow> int \<Rightarrow> nat set \<times> nat set" where
  "adjacent_regions g x_curr y_curr =
     fold (\<lambda>(x, y) (white_regions, numbered_regions).
             case region g x y of
               None \<Rightarrow> (white_regions, numbered_regions)
             | Some r \<Rightarrow>
                 if white (heap g r) then (insert r white_regions, numbered_regions)
                 else if numbered (heap g r) then (white_regions, insert r numbered_regions)
                 else (white_regions, numbered_regions))
       (for_valid_neighbors g x_curr y_curr) ({}, {})"

text \<open>The second lambda: the unknown neighbours not yet discovered join the queue.\<close>

definition push_neighbors ::
    "Grid \<Rightarrow> int \<Rightarrow> int \<Rightarrow> int \<Rightarrow> (int \<times> int \<times> int) list \<times> coord set
      \<Rightarrow> (int \<times> int \<times> int) list \<times> coord set" where
  "push_neighbors g x_curr y_curr n_curr qd =
     fold (\<lambda>(x, y) (q, discovered).
             if cell g x y = UNKNOWN \<and> (x, y) \<notin> discovered
             then (q @ [(x, y, n_curr + 1)], insert (x, y) discovered)
             else (q, discovered))
       (for_valid_neighbors g x_curr y_curr) qd"

text \<open>
  The breadth-first loop of \<^verbatim>\<open>unreachable\<close>; \<open>fuel\<close> bounds the number of cells taken
  from the queue.
\<close>

fun unreachable_loop ::
    "nat \<Rightarrow> Grid \<Rightarrow> (int \<times> int \<times> int) list \<Rightarrow> coord set \<Rightarrow> error + bool" where
  "unreachable_loop fuel g [] discovered = Inr True"
| "unreachable_loop 0 g (c # q) discovered = Inl OUT_OF_FUEL"
| "unreachable_loop (Suc fuel) g ((x_curr, y_curr, n_curr) # q) discovered =
     (case adjacent_regions g x_curr y_curr of (white_regions, numbered_regions) \<Rightarrow>
        let size = (\<Sum>i\<in>white_regions. size_R (heap g i))
                 + (\<Sum>i\<in>numbered_regions. size_R (heap g i))
        in if card numbered_regions > 1 then unreachable_loop fuel g q discovered
           else if card numbered_regions = 1 then
             let num = number (heap g (Min numbered_regions))
             in if n_curr + size \<le> num then Inr False
                else unreachable_loop fuel g q discovered
           else if white_regions \<noteq> {} then
             if impossibly_big_white_region g (n_curr + size)
             then unreachable_loop fuel g q discovered
             else Inr False
           else
             (case push_neighbors g x_curr y_curr n_curr (q, discovered) of
                (q', discovered') \<Rightarrow> unreachable_loop fuel g q' discovered'))"

definition unreachable :: "nat \<Rightarrow> Grid \<Rightarrow> int \<Rightarrow> int \<Rightarrow> coord set \<Rightarrow> error + bool" where
  "unreachable fuel g x_root y_root discovered =
     (if cell g x_root y_root \<noteq> UNKNOWN then Inr False
      else unreachable_loop fuel g [(x_root, y_root, 1)]
             (insert (x_root, y_root) discovered))"

fun unreachable_cells_marks ::
    "nat \<Rightarrow> Grid \<Rightarrow> coord list \<Rightarrow> coord set \<Rightarrow> error + coord set" where
  "unreachable_cells_marks fuel g [] mark_as_black = Inr mark_as_black"
| "unreachable_cells_marks fuel g ((x, y) # ps) mark_as_black =
     (case unreachable fuel g x y {} of
        Inl e \<Rightarrow> Inl e
      | Inr b \<Rightarrow>
          unreachable_cells_marks fuel g ps
            (if b then insert (x, y) mark_as_black else mark_as_black))"

definition analyze_unreachable_cells :: "nat \<Rightarrow> Grid \<Rightarrow> error + bool \<times> Grid" where
  "analyze_unreachable_cells fuel g =
     (case unreachable_cells_marks fuel g (cells_xy (m_width g) (m_height g)) {} of
        Inl e \<Rightarrow> Inl e
      | Inr mark_as_black \<Rightarrow> process g mark_as_black {})"

subsection \<open>Pool avoidance\<close>

text \<open>
  One 2 by 2 square of \<^verbatim>\<open>analyze_potential_pools\<close>. The source sorts the four cells by
  state with \<^verbatim>\<open>std::sort\<close>; the order it leaves among cells of equal state does not
  change the set computed (the branch of two unknown cells treats both orders), and the
  model sorts stably.
\<close>

definition potential_pools_step ::
    "nat \<Rightarrow> Grid \<Rightarrow> int \<Rightarrow> int \<Rightarrow> coord set \<Rightarrow> error + coord set" where
  "potential_pools_step fuel g x y mark_as_white =
     (let a = sort_key (\<lambda>(ax, ay, state). state)
                [(x, y, cell g x y), (x + 1, y, cell g (x + 1) y),
                 (x, y + 1, cell g x (y + 1)), (x + 1, y + 1, cell g (x + 1) (y + 1))];
          state = (\<lambda>i. snd (snd (a ! i)));
          xy = (\<lambda>i. (fst (a ! i), fst (snd (a ! i))))
      in if state 0 = UNKNOWN \<and> state 1 = BLACK \<and> state 2 = BLACK \<and> state 3 = BLACK
         then Inr (insert (xy 0) mark_as_white)
         else if state 0 = UNKNOWN \<and> state 1 = UNKNOWN \<and> state 2 = BLACK \<and> state 3 = BLACK
         then
           (case unreachable fuel g (fst (xy 1)) (snd (xy 1)) {xy 0} of
              Inl e \<Rightarrow> Inl e
            | Inr b0 \<Rightarrow>
                (case unreachable fuel g (fst (xy 0)) (snd (xy 0)) {xy 1} of
                   Inl e \<Rightarrow> Inl e
                 | Inr b1 \<Rightarrow>
                     Inr ((if b1 then insert (xy 1) else id)
                            ((if b0 then insert (xy 0) else id) mark_as_white))))
         else Inr mark_as_white)"

fun potential_pools_marks ::
    "nat \<Rightarrow> Grid \<Rightarrow> coord list \<Rightarrow> coord set \<Rightarrow> error + coord set" where
  "potential_pools_marks fuel g [] mark_as_white = Inr mark_as_white"
| "potential_pools_marks fuel g ((x, y) # ps) mark_as_white =
     (case potential_pools_step fuel g x y mark_as_white of
        Inl e \<Rightarrow> Inl e
      | Inr mark_as_white' \<Rightarrow> potential_pools_marks fuel g ps mark_as_white')"

definition analyze_potential_pools :: "nat \<Rightarrow> Grid \<Rightarrow> error + bool \<times> Grid" where
  "analyze_potential_pools fuel g =
     (case potential_pools_marks fuel g (cells_xy (m_width g - 1) (m_height g - 1)) {} of
        Inl e \<Rightarrow> Inl e
      | Inr mark_as_white \<Rightarrow> process g {} mark_as_white)"

subsection \<open>Confinement\<close>

datatype Flag = NONE | OPEN | CLOSED | VERBOTEN

type_synonym cache_map_t = "nat \<Rightarrow> coord set option"

text \<open>
  The condition of the loop of \<^verbatim>\<open>confined\<close>, which is also its result: the region
  still needs to consume more cells.
\<close>

definition need :: "Grid \<Rightarrow> Region \<Rightarrow> int \<Rightarrow> bool" where
  "need g r closed_size \<longleftrightarrow>
     black r \<and> closed_size < m_total_black g \<or> white r
       \<or> numbered r \<and> closed_size < number r"

text \<open>
  \<^verbatim>\<open>flags[x + y * m_width] = v\<close>. An index outside the vector is undefined behaviour in
  the source; the model leaves the vector as it is.
\<close>

definition flag_write :: "Grid \<Rightarrow> Flag list \<Rightarrow> coord \<Rightarrow> Flag \<Rightarrow> Flag list" where
  "flag_write g flags p v =
     (let i = fst p + snd p * m_width g
      in if 0 \<le> i \<and> i < int (length flags) then flags[nat i := v] else flags)"

text \<open>\<^verbatim>\<open>if (f == NONE) f = OPEN\<close> on the flag of a cell.\<close>

definition flag_open :: "Grid \<Rightarrow> Flag list \<Rightarrow> coord \<Rightarrow> Flag list" where
  "flag_open g flags p =
     (let i = fst p + snd p * m_width g
      in if 0 \<le> i \<and> i < int (length flags) \<and> flags ! nat i = NONE
         then flags[nat i := OPEN] else flags)"

text \<open>
  What the loop decides about the open cell \<open>p\<close> (the chain of comparisons of the
  region \<open>r\<close> with the region of \<open>p\<close>).
\<close>

datatype decision = CONSUME | DISCARD | ESCAPED | CONFUSED

definition consider_cell :: "Grid \<Rightarrow> nat \<Rightarrow> coord \<Rightarrow> decision" where
  "consider_cell g r p =
     (let area = region g (fst p) (snd p) in
      if black (heap g r) then
        (case area of
           None \<Rightarrow> CONSUME
         | Some a \<Rightarrow> if black (heap g a) then CONSUME else DISCARD)
      else if white (heap g r) then
        (case area of
           None \<Rightarrow> CONSUME
         | Some a \<Rightarrow>
             if black (heap g a) then DISCARD
             else if white (heap g a) then CONSUME
             else ESCAPED)
      else
        (case area of
           None \<Rightarrow>
             if list_ex (\<lambda>(a, b). case region g a b of
                                    None \<Rightarrow> False
                                  | Some other \<Rightarrow> numbered (heap g other) \<and> other \<noteq> r)
                  (for_valid_neighbors g (fst p) (snd p))
             then DISCARD else CONSUME
         | Some a \<Rightarrow>
             if black (heap g a) then DISCARD
             else if white (heap g a) then CONSUME
             else CONFUSED))"

text \<open>
  The loop of \<^verbatim>\<open>confined\<close>. \<open>fuel\<close> bounds the number of open cells taken;
  \<open>verboten_empty\<close> is \<^verbatim>\<open>verboten.empty()\<close>.
\<close>

fun confined_loop ::
    "nat \<Rightarrow> Grid \<Rightarrow> nat \<Rightarrow> bool \<Rightarrow> Flag list \<Rightarrow> int \<Rightarrow> cache_map_t
      \<Rightarrow> error + bool \<times> cache_map_t" where
  "confined_loop 0 g r verboten_empty flags closed_size cache =
     (if \<not> need g (heap g r) closed_size \<or> OPEN \<notin> set flags
      then Inr (need g (heap g r) closed_size, cache)
      else Inl OUT_OF_FUEL)"
| "confined_loop (Suc fuel) g r verboten_empty flags closed_size cache =
     (if \<not> need g (heap g r) closed_size \<or> OPEN \<notin> set flags
      then Inr (need g (heap g r) closed_size, cache)
      else
        let index = length (takeWhile (\<lambda>f. f \<noteq> OPEN) flags);
            flags1 = flags[index := NONE];
            p = (int index mod m_width g, int index div m_width g)
        in case consider_cell g r p of
             DISCARD \<Rightarrow> confined_loop fuel g r verboten_empty flags1 closed_size cache
           | ESCAPED \<Rightarrow> Inr (False, cache)
           | CONFUSED \<Rightarrow> Inl LOGIC_ERROR
           | CONSUME \<Rightarrow>
               (case region g (fst p) (snd p) of
                  None \<Rightarrow>
                    confined_loop fuel g r verboten_empty
                      (fold (\<lambda>n fl. flag_open g fl n) (for_valid_neighbors g (fst p) (snd p))
                         (flag_write g flags1 p CLOSED))
                      (closed_size + 1)
                      (if verboten_empty
                       then cache(r \<mapsto> insert p (case cache r of None \<Rightarrow> {} | Some c \<Rightarrow> c))
                       else cache)
                | Some area \<Rightarrow>
                    confined_loop fuel g r verboten_empty
                      (fold (\<lambda>n fl. flag_open g fl n)
                         (sorted_list_of_set (m_unknowns (heap g area)))
                         (fold (\<lambda>c fl. flag_write g fl c CLOSED)
                            (sorted_list_of_set (m_coords (heap g area))) flags1))
                      (closed_size + size_R (heap g area))
                      cache))"

definition confined ::
    "nat \<Rightarrow> Grid \<Rightarrow> nat \<Rightarrow> cache_map_t \<Rightarrow> coord set \<Rightarrow> error + bool \<times> cache_map_t" where
  "confined fuel g r cache verboten =
     (if verboten \<noteq> {} \<and>
         (case cache r of
            None \<Rightarrow> True
          | Some consumed \<Rightarrow> \<not> (\<exists>p\<in>verboten. p \<in> consumed))
      then Inr (False, cache)
      else
        let flags = replicate (nat (m_width g * m_height g)) NONE;
            flags = fold (\<lambda>u fl. flag_write g fl u OPEN)
                      (sorted_list_of_set (m_unknowns (heap g r))) flags;
            flags = fold (\<lambda>c fl. flag_write g fl c CLOSED)
                      (sorted_list_of_set (m_coords (heap g r))) flags;
            closed_size = size_R (heap g r);
            flags = fold (\<lambda>v fl. flag_write g fl v VERBOTEN)
                      (sorted_list_of_set verboten) flags
        in confined_loop fuel g r (verboten = {}) flags closed_size cache)"

subsection \<open>Contradictions\<close>

definition uh_oh :: "Grid \<Rightarrow> cache_map_t \<Rightarrow> error + bool \<times> Grid \<times> cache_map_t" where
  "uh_oh g cache = Inr (True, g\<lparr>m_sitrep := CONTRADICTION_FOUND\<rparr>, cache)"

definition pool_at :: "Grid \<Rightarrow> coord \<Rightarrow> bool" where
  "pool_at g p \<longleftrightarrow>
     (case p of (x, y) \<Rightarrow>
        cell g x y = BLACK \<and> cell g (x + 1) y = BLACK
          \<and> cell g x (y + 1) = BLACK \<and> cell g (x + 1) (y + 1) = BLACK)"

text \<open>
  The loop of \<^verbatim>\<open>detect_contradictions\<close> over the regions. The result is: whether the
  loop left through \<^verbatim>\<open>uh_oh\<close>, the two counters and the cache.
\<close>

fun detect_regions ::
    "nat \<Rightarrow> Grid \<Rightarrow> nat list \<Rightarrow> int \<Rightarrow> int \<Rightarrow> cache_map_t
      \<Rightarrow> error + bool \<times> int \<times> int \<times> cache_map_t" where
  "detect_regions fuel g [] black_cells white_cells cache =
     Inr (False, black_cells, white_cells, cache)"
| "detect_regions fuel g (i # is) black_cells white_cells cache =
     (let r = heap g i in
      if white r \<and> impossibly_big_white_region g (size_R r)
           \<or> numbered r \<and> size_R r > number r
      then Inr (True, black_cells, white_cells, cache)
      else
        let black_cells' = (if black r then black_cells + size_R r else black_cells);
            white_cells' = (if black r then white_cells else white_cells + size_R r)
        in case confined fuel g i cache {} of
             Inl e \<Rightarrow> Inl e
           | Inr (b, cache') \<Rightarrow>
               if b then Inr (True, black_cells', white_cells', cache')
               else detect_regions fuel g is black_cells' white_cells' cache')"

definition detect_contradictions ::
    "nat \<Rightarrow> Grid \<Rightarrow> cache_map_t \<Rightarrow> error + bool \<times> Grid \<times> cache_map_t" where
  "detect_contradictions fuel g cache =
     (if list_ex (pool_at g) (cells_xy (m_width g - 1) (m_height g - 1)) then uh_oh g cache
      else case detect_regions fuel g (m_regions g) 0 0 cache of
             Inl e \<Rightarrow> Inl e
           | Inr (b, black_cells, white_cells, cache') \<Rightarrow>
               if b then uh_oh g cache'
               else if black_cells > m_total_black g then uh_oh g cache'
               else if white_cells > wrap_int (m_width g * m_height g - m_total_black g)
               then uh_oh g cache'
               else Inr (False, g, cache'))"

subsection \<open>Confinement analysis\<close>

type_synonym marks = "coord set \<times> coord set \<times> cache_map_t"

text \<open>
  The first pair of loops of \<^verbatim>\<open>analyze_confinement\<close>: the innermost loop over the
  regions for one unknown cell, and the loop over the cells.
\<close>

fun confinement_regions ::
    "nat \<Rightarrow> Grid \<Rightarrow> coord \<Rightarrow> nat list \<Rightarrow> marks \<Rightarrow> error + marks" where
  "confinement_regions fuel g u [] acc = Inr acc"
| "confinement_regions fuel g u (i # is) (mark_as_black, mark_as_white, cache) =
     (case confined fuel g i cache {u} of
        Inl e \<Rightarrow> Inl e
      | Inr (b, cache') \<Rightarrow>
          confinement_regions fuel g u is
            (if b then
               if black (heap g i) then (insert u mark_as_black, mark_as_white, cache')
               else (mark_as_black, insert u mark_as_white, cache')
             else (mark_as_black, mark_as_white, cache')))"

fun confinement_cells ::
    "nat \<Rightarrow> Grid \<Rightarrow> coord list \<Rightarrow> marks \<Rightarrow> error + marks" where
  "confinement_cells fuel g [] acc = Inr acc"
| "confinement_cells fuel g ((x, y) # ps) acc =
     (if cell g x y = UNKNOWN then
        (case confinement_regions fuel g (x, y) (m_regions g) acc of
           Inl e \<Rightarrow> Inl e
         | Inr acc' \<Rightarrow> confinement_cells fuel g ps acc')
      else confinement_cells fuel g ps acc)"

text \<open>
  The second group of loops: for a partial numbered region \<open>i\<close> and each liberty \<open>u\<close>
  of it, the other numbered regions \<open>k\<close>.
\<close>

fun confinement_others ::
    "nat \<Rightarrow> Grid \<Rightarrow> nat \<Rightarrow> coord \<Rightarrow> coord set \<Rightarrow> nat list \<Rightarrow> marks \<Rightarrow> error + marks" where
  "confinement_others fuel g i u verboten [] acc = Inr acc"
| "confinement_others fuel g i u verboten (k # ks) (mark_as_black, mark_as_white, cache) =
     (if k \<noteq> i \<and> numbered (heap g k) then
        (case confined fuel g k cache verboten of
           Inl e \<Rightarrow> Inl e
         | Inr (b, cache') \<Rightarrow>
             confinement_others fuel g i u verboten ks
               (if b then insert u mark_as_black else mark_as_black, mark_as_white, cache'))
      else confinement_others fuel g i u verboten ks (mark_as_black, mark_as_white, cache))"

fun confinement_liberties ::
    "nat \<Rightarrow> Grid \<Rightarrow> nat \<Rightarrow> coord list \<Rightarrow> marks \<Rightarrow> error + marks" where
  "confinement_liberties fuel g i [] acc = Inr acc"
| "confinement_liberties fuel g i (u # us) acc =
     (case confinement_others fuel g i u
             (insert_valid_unknown_neighbors g {u} (fst u) (snd u)) (m_regions g) acc of
        Inl e \<Rightarrow> Inl e
      | Inr acc' \<Rightarrow> confinement_liberties fuel g i us acc')"

fun confinement_partial ::
    "nat \<Rightarrow> Grid \<Rightarrow> nat list \<Rightarrow> marks \<Rightarrow> error + marks" where
  "confinement_partial fuel g [] acc = Inr acc"
| "confinement_partial fuel g (i # is) acc =
     (if numbered (heap g i) \<and> size_R (heap g i) < number (heap g i) then
        (case confinement_liberties fuel g i (unk_list (heap g i)) acc of
           Inl e \<Rightarrow> Inl e
         | Inr acc' \<Rightarrow> confinement_partial fuel g is acc')
      else confinement_partial fuel g is acc)"

definition confinement_marks :: "nat \<Rightarrow> Grid \<Rightarrow> cache_map_t \<Rightarrow> error + marks" where
  "confinement_marks fuel g cache =
     (case confinement_cells fuel g (cells_xy (m_width g) (m_height g)) ({}, {}, cache) of
        Inl e \<Rightarrow> Inl e
      | Inr acc \<Rightarrow> confinement_partial fuel g (m_regions g) acc)"

definition analyze_confinement :: "nat \<Rightarrow> Grid \<Rightarrow> cache_map_t \<Rightarrow> error + bool \<times> Grid" where
  "analyze_confinement fuel g cache =
     (case confinement_marks fuel g cache of
        Inl e \<Rightarrow> Inl e
      | Inr (mark_as_black, mark_as_white, cache') \<Rightarrow> process g mark_as_black mark_as_white)"

subsection \<open>The solve driver\<close>

text \<open>
  \<^verbatim>\<open>a || b\<close> on two steps of analysis: the second runs, on the grid the first left, only
  when the first returned false.
\<close>

definition or_else ::
    "error + bool \<times> Grid \<Rightarrow> (Grid \<Rightarrow> error + bool \<times> Grid) \<Rightarrow> error + bool \<times> Grid" where
  "or_else a f = (case a of Inl e \<Rightarrow> Inl e | Inr (b, g) \<Rightarrow> if b then Inr (True, g) else f g)"

text \<open>
  \<^verbatim>\<open>solve\<close>, with hypothetical search as the parameter \<open>hypotheticals\<close>:
  \<^verbatim>\<open>analyze_hypotheticals\<close> itself calls \<^verbatim>\<open>solve(false, false)\<close>, which never reaches
  hypothetical search, and the parameter cuts that recursion.
\<close>

definition solve_with ::
    "(Grid \<Rightarrow> error + bool \<times> Grid) \<Rightarrow> nat \<Rightarrow> bool \<Rightarrow> Grid \<Rightarrow> error + SitRep \<times> Grid" where
  "solve_with hypotheticals fuel guessing g =
     (if known g = m_width g * m_height g then
        (case detect_contradictions fuel g Map.empty of
           Inl e \<Rightarrow> Inl e
         | Inr (b, g', cache) \<Rightarrow>
             if b then Inr (CONTRADICTION_FOUND, g') else Inr (SOLUTION_FOUND, g'))
      else
        (case
           or_else (analyze_complete_islands g) (\<lambda>g.
           or_else (analyze_single_liberties g) (\<lambda>g.
           or_else (analyze_dual_liberties g) (\<lambda>g.
           or_else (analyze_unreachable_cells fuel g) (\<lambda>g.
           or_else (analyze_potential_pools fuel g) (\<lambda>g.
             case detect_contradictions fuel g Map.empty of
               Inl e \<Rightarrow> Inl e
             | Inr (b, g, cache) \<Rightarrow>
                 if b then Inr (True, g)
                 else
                   or_else (analyze_confinement fuel g cache) (\<lambda>g.
                     if guessing then hypotheticals g else Inr (False, g)))))))
         of
           Inl e \<Rightarrow> Inl e
         | Inr (b, g') \<Rightarrow> if b then Inr (m_sitrep g', g') else Inr (CANNOT_PROCEED, g')))"

text \<open>\<^verbatim>\<open>solve(false, false)\<close>.\<close>

definition solve_no_guessing :: "nat \<Rightarrow> Grid \<Rightarrow> error + SitRep \<times> Grid" where
  "solve_no_guessing fuel g = solve_with (\<lambda>g. Inr (False, g)) fuel False g"

subsection \<open>Hypothetical search\<close>

text \<open>
  The private copy constructor. Each region of \<open>other\<close> is copied to a new address and
  the cells of its coordinates are pointed at the copy. The copy carries its own heap:
  what it allocates and changes is not seen by \<open>other\<close>. (In the source a cell of the
  copy would go on sharing a region with \<open>other\<close> if it pointed at a region without
  lying in its coordinates; the constructor and \<^verbatim>\<open>mark\<close> never leave such a cell.)
\<close>

definition Grid_copy :: "Grid \<Rightarrow> Grid" where
  "Grid_copy other =
     (let g1 = fold (\<lambda>i g. g\<lparr>m_regions := insort_insert (heap_next g) (m_regions g),
                               heap := update (heap g) (heap_next g) (heap other i),
                               heap_next := Suc (heap_next g)\<rparr>)
                 (m_regions other) (other\<lparr>m_regions := []\<rparr>)
      in fold (\<lambda>i g. g\<lparr>m_cells := repoint i (sorted_list_of_set (m_coords (heap g i)))
                                             (m_cells g)\<rparr>)
           (m_regions g1) g1)"

text \<open>
  \<^verbatim>\<open>guessing_order\<close>. How \<^verbatim>\<open>random_shuffle\<close> permutes a vector and advances the
  generator is left to the standard library, so it is the parameter \<open>shuffle\<close>; the
  state of the generator is a number (1729 stands for the state seeded with 1729).
\<close>

type_synonym shuffle_t = "nat \<Rightarrow> (int \<times> int \<times> int) list \<Rightarrow> (int \<times> int \<times> int) list \<times> nat"

definition guessing_order :: "shuffle_t \<Rightarrow> Grid \<Rightarrow> coord list \<times> Grid" where
  "guessing_order shuffle g =
     (let cells = cells_xy (m_width g) (m_height g);
          x_y_manhattan = map (\<lambda>(x, y). (x, y, m_width g + m_height g))
                            (filter (\<lambda>(x, y). cell g x y = UNKNOWN) cells);
          white_cells = filter (\<lambda>(x, y). cell g x y = WHITE) cells
      in case shuffle (m_prng g) x_y_manhattan of (shuffled, prng) \<Rightarrow>
           let nearest = map (\<lambda>(x1, y1, manhattan).
                                (x1, y1,
                                 fold (\<lambda>(x2, y2) m.
                                         let d = \<bar>x1 - x2\<bar> + \<bar>y1 - y2\<bar>
                                         in if d < m then d else m)
                                   white_cells manhattan))
                           shuffled;
               sorted = sort_key (\<lambda>(x, y, manhattan). manhattan) nearest
           in (map (\<lambda>(x, y, manhattan). (x, y)) sorted, g\<lparr>m_prng := prng\<rparr>))"

text \<open>\<^verbatim>\<open>while (sr == KEEP_GOING) sr = other.solve(false, false);\<close>\<close>

fun keep_going :: "nat \<Rightarrow> nat \<Rightarrow> Grid \<Rightarrow> error + SitRep \<times> Grid" where
  "keep_going 0 fuel other = Inl OUT_OF_FUEL"
| "keep_going (Suc n) fuel other =
     (case solve_no_guessing fuel other of
        Inl e \<Rightarrow> Inl e
      | Inr (sr, other') \<Rightarrow>
          if sr = KEEP_GOING then keep_going n fuel other' else Inr (sr, other'))"

text \<open>
  One guess: the copy of the grid, the mark on the copy and the loop of \<^verbatim>\<open>solve\<close>; the
  result is the last \<^verbatim>\<open>sr\<close>.
\<close>

definition guess :: "nat \<Rightarrow> Grid \<Rightarrow> State \<Rightarrow> int \<Rightarrow> int \<Rightarrow> error + SitRep" where
  "guess fuel g color x y =
     (case mark color x y (Grid_copy g) of
        Inl e \<Rightarrow> Inl e
      | Inr other \<Rightarrow>
          (case keep_going fuel fuel other of
             Inl e \<Rightarrow> Inl e
           | Inr (sr, other') \<Rightarrow> Inr sr))"

text \<open>
  The two nested loops of \<^verbatim>\<open>analyze_hypotheticals\<close>, over the list of the guesses
  \<open>((x, y), color)\<close> in the order they are tried.
\<close>

definition guesses :: "coord list \<Rightarrow> (coord \<times> State) list" where
  "guesses v = concat (map (\<lambda>u. [(u, BLACK), (u, WHITE)]) v)"

fun hypotheticals_loop :: "nat \<Rightarrow> Grid \<Rightarrow> (coord \<times> State) list \<Rightarrow> error + bool \<times> Grid" where
  "hypotheticals_loop fuel g [] = Inr (False, g)"
| "hypotheticals_loop fuel g (((x, y), color) # rest) =
     (case guess fuel g color x y of
        Inl e \<Rightarrow> Inl e
      | Inr sr \<Rightarrow>
          if sr = CONTRADICTION_FOUND then
            (if color = BLACK then process g {} {(x, y)} else process g {(x, y)} {})
          else if sr = SOLUTION_FOUND then
            (if color = BLACK then process g {(x, y)} {} else process g {} {(x, y)})
          else hypotheticals_loop fuel g rest)"

definition analyze_hypotheticals :: "nat \<Rightarrow> shuffle_t \<Rightarrow> Grid \<Rightarrow> error + bool \<times> Grid" where
  "analyze_hypotheticals fuel shuffle g =
     (case guessing_order shuffle g of (v, g') \<Rightarrow> hypotheticals_loop fuel g' (guesses v))"

definition solve :: "nat \<Rightarrow> shuffle_t \<Rightarrow> bool \<Rightarrow> Grid \<Rightarrow> error + SitRep \<times> Grid" where
  "solve fuel shuffle guessing g =
     solve_with (analyze_hypotheticals fuel shuffle) fuel guessing g"

subsection \<open>Example grids\<close>

text \<open>The 2 by 1 puzzle \<^verbatim>\<open>"1 "\<close>: a complete island of one cell and one unknown cell.\<close>

definition island_1 :: Grid where
  "island_1 = projr (Grid_ctor 2 1 ''1 '')"

text \<open>The same puzzle after the rule of complete islands: the second cell is black.\<close>

definition island_1_solved :: Grid where
  "island_1_solved = snd (projr (analyze_complete_islands island_1))"

text \<open>
  The 3 by 1 puzzle \<^verbatim>\<open>"1  "\<close> after the rule of complete islands (a black cell next to
  the island, one unknown cell left, two black cells required), and the 3 by 1 puzzle
  \<^verbatim>\<open>"2  "\<close>.
\<close>

definition strip_1 :: Grid where
  "strip_1 = snd (projr (analyze_complete_islands (projr (Grid_ctor 3 1 ''1  ''))))"

definition strip_2 :: Grid where
  "strip_2 = projr (Grid_ctor 3 1 ''2  '')"

text \<open>The cache that \<^verbatim>\<open>detect_contradictions\<close> leaves on a grid.\<close>

definition cache_of :: "nat \<Rightarrow> Grid \<Rightarrow> cache_map_t" where
  "cache_of fuel g = snd (snd (projr (detect_contradictions fuel g Map.empty)))"

text \<open>The 2 by 1 puzzle \<^verbatim>\<open>"2 "\<close>, and a shuffle that leaves the order as it is.\<close>

definition domino_2 :: Grid where
  "domino_2 = projr (Grid_ctor 2 1 ''2 '')"

definition no_shuffle :: shuffle_t where
  "no_shuffle prng xs = (xs, prng)"

text \<open>
  The 3 by 1 puzzle \<^verbatim>\<open>"1 2"\<close> (no black cell is allowed: 3 - 1 - 2 = 0), the 2 by 1
  puzzle \<^verbatim>\<open>"1 "\<close> with its second cell marked black, and the 4 by 1 puzzle \<^verbatim>\<open>"3   "\<close>.
\<close>

definition trio_1_2 :: Grid where
  "trio_1_2 = projr (Grid_ctor 3 1 ''1 2'')"

definition island_1_marked :: Grid where
  "island_1_marked = projr (mark BLACK 1 0 island_1)"

definition strip_3 :: Grid where
  "strip_3 = projr (Grid_ctor 4 1 ''3   '')"

text \<open>
  The 4 by 2 puzzle with a 2 at \<open>(2, 0)\<close> and a 2 at \<open>(0, 1)\<close>, and the 3 by 5 puzzle with
  a 2 at \<open>(0, 0)\<close> and a 3 at \<open>(0, 4)\<close> after four cells have been marked black.
\<close>

definition corner_pair :: Grid where
  "corner_pair = projr (Grid_ctor 4 2 ''  2 2   '')"

definition pool_grid :: Grid where
  "pool_grid = projr (mark_all BLACK [(2, 0), (1, 1), (2, 1), (1, 2)]
                        (projr (Grid_ctor 3 5 ''2           3  '')))"

text \<open>
  The 3 by 1 puzzle \<^verbatim>\<open>"1  "\<close> with the cell \<open>(1, 0)\<close> marked black; the 5 by 1 puzzle
  \<^verbatim>\<open>"3   2"\<close>; the 3 by 1 puzzle of two numbers 2147483647, whose sum does not fit an
  \<^verbatim>\<open>int\<close>; and the 2 by 1 puzzle of the string \<^verbatim>\<open>"1"\<close>, newline, \<^verbatim>\<open>"2"\<close>, whose two
  numbers lie side by side.
\<close>

definition strip_black :: Grid where
  "strip_black = projr (mark BLACK 1 0 (projr (Grid_ctor 3 1 ''1  '')))"

definition strip_3_2 :: Grid where
  "strip_3_2 = projr (Grid_ctor 5 1 ''3   2'')"

definition huge_pair :: Grid where
  "huge_pair = projr (Grid_ctor 3 1 ''2147483647 2147483647'')"

definition pair_1_2 :: Grid where
  "pair_1_2 = projr (Grid_ctor 2 1 [CHR ''1'', CHR 0x0A, CHR ''2''])"

subsection \<open>Predicates used in the statements\<close>

text \<open>\<^verbatim>\<open>detect_contradictions\<close> returns false on the grid (with the empty cache of \<^verbatim>\<open>solve\<close>).\<close>

definition no_contradiction :: "nat \<Rightarrow> Grid \<Rightarrow> bool" where
  "no_contradiction fuel g \<longleftrightarrow>
     (case detect_contradictions fuel g Map.empty of
        Inl e \<Rightarrow> False
      | Inr (b, g', cache) \<Rightarrow> \<not> b)"

text \<open>The 2 by 2 puzzle with a 2 in the corner \<open>(0, 0)\<close>.\<close>

definition island_2 :: Grid where
  "island_2 = projr (Grid_ctor 2 2 ''2   '')"

text \<open>
  The far corner of the dual-liberty rule as the specification words it, for the
  liberties \<open>u1\<close> and \<open>u2\<close> of a region \<open>r\<close>.
\<close>

definition far_corner :: "Region \<Rightarrow> coord \<Rightarrow> coord \<Rightarrow> coord" where
  "far_corner r u1 u2 =
     (if contains r (fst u1) (snd u2) then (fst u2, snd u1) else (fst u1, snd u2))"

text \<open>A call returned normally, and its boolean result is true.\<close>

definition returns_true :: "error + bool \<times> 'a \<Rightarrow> bool" where
  "returns_true res \<longleftrightarrow> (case res of Inl e \<Rightarrow> False | Inr (b, rest) \<Rightarrow> b)"

text \<open>The colour that is not \<open>color\<close>, for the two colours of a guess.\<close>

definition opposite :: "State \<Rightarrow> State" where
  "opposite color = (if color = BLACK then WHITE else BLACK)"

text \<open>
  The conditions on the input of the constructor, read off the string: a character
  that is no digit, space or newline; the numbers and spaces of the string in order (a
  maximal run of digits is one number, a space counts as 0, other characters are
  skipped); a number above the largest \<^verbatim>\<open>int\<close>; a count of numbers and spaces other than
  width times height; two positive numbers one above the other in the row-major
  layout.
\<close>

definition bad_character :: "string \<Rightarrow> bool" where
  "bad_character s \<longleftrightarrow> (\<exists>c\<in>set s. \<not> is_digit c \<and> c \<noteq> CHR '' '' \<and> c \<noteq> CHR 0x0A)"

function numbers_and_spaces :: "string \<Rightarrow> int list" where
  "numbers_and_spaces [] = []"
| "numbers_and_spaces (c # cs) =
     (if is_digit c
      then digits_value (takeWhile is_digit (c # cs)) # numbers_and_spaces (dropWhile is_digit cs)
      else if c = CHR '' '' then 0 # numbers_and_spaces cs
      else numbers_and_spaces cs)"
  by pat_completeness auto
termination
  by (relation "measure length") (auto simp: length_dropWhile_le less_Suc_eq_le)

definition number_too_big :: "string \<Rightarrow> bool" where
  "number_too_big s \<longleftrightarrow> (\<exists>n\<in>set (numbers_and_spaces s). n > 2147483647)"

definition wrong_count :: "int \<Rightarrow> int \<Rightarrow> string \<Rightarrow> bool" where
  "wrong_count w h s \<longleftrightarrow> int (length (numbers_and_spaces s)) \<noteq> w * h"

definition vertically_adjacent :: "int \<Rightarrow> int \<Rightarrow> string \<Rightarrow> bool" where
  "vertically_adjacent w h s \<longleftrightarrow>
     list_ex (\<lambda>(x, y). y \<ge> 1 \<and> numbers_and_spaces s ! nat (x + y * w) > 0
                         \<and> numbers_and_spaces s ! nat (x + (y - 1) * w) > 0)
       (cells_xy w h)"

text \<open>The sum of the sizes of the black regions, and the sum of the numbers of the grid.\<close>

definition black_cells_sum :: "Grid \<Rightarrow> int" where
  "black_cells_sum g =
     (\<Sum>i\<leftarrow>m_regions g. if black (heap g i) then size_R (heap g i) else 0)"

definition clue_sum :: "Grid \<Rightarrow> int" where
  "clue_sum g =
     (\<Sum>(x, y)\<leftarrow>cells_xy (m_width g) (m_height g). if cell g x y > 0 then cell g x y else 0)"

text \<open>The grids that the constructor and \<^verbatim>\<open>mark\<close> produce.\<close>

inductive reached :: "Grid \<Rightarrow> bool" where
  constructed: "Grid_ctor w h s = Inr g \<Longrightarrow> reached g"
| marked: "reached g \<Longrightarrow> mark s x y g = Inr g' \<Longrightarrow> reached g'"

text \<open>
  \<^verbatim>\<open>make_shared\<close> returns an address that no region of the grid has: in the model, every
  address of \<^verbatim>\<open>m_regions\<close> is below \<open>heap_next\<close>.
\<close>

definition heap_fresh :: "Grid \<Rightarrow> bool" where
  "heap_fresh g \<longleftrightarrow> (\<forall>i\<in>set (m_regions g). i < heap_next g)"

text \<open>
  Invariant 4 of the data model, in the part the rules rely on: the liberties recorded
  in a region of the grid are (finitely many) Unknown cells.
\<close>

definition liberties_unknown :: "Grid \<Rightarrow> bool" where
  "liberties_unknown g \<longleftrightarrow>
     (\<forall>i\<in>set (m_regions g). finite (m_unknowns (heap g i))
        \<and> (\<forall>(x, y)\<in>m_unknowns (heap g i). cell g x y = UNKNOWN))"

text \<open>
  The part of it that the rule of complete islands relies on: the liberties recorded in
  a complete island, a numbered region that has as many cells as its number, are Unknown
  cells.
\<close>

definition complete_liberties_unknown :: "Grid \<Rightarrow> bool" where
  "complete_liberties_unknown g \<longleftrightarrow>
     (\<forall>i\<in>set (m_regions g). numbered (heap g i) \<and> size_R (heap g i) = number (heap g i)
        \<longrightarrow> (\<forall>(x, y)\<in>m_unknowns (heap g i). cell g x y = UNKNOWN))"

text \<open>
  The region pointers of a grid are in order when every region of \<^verbatim>\<open>m_regions\<close> was
  allocated and has finitely many cells, and every cell that points at a region points
  at a region of \<^verbatim>\<open>m_regions\<close> whose coordinates contain the cell.
\<close>

definition pointers_ok :: "Grid \<Rightarrow> bool" where
  "pointers_ok g \<longleftrightarrow>
     (\<forall>i\<in>set (m_regions g). i < heap_next g \<and> finite (m_coords (heap g i)))
     \<and> (\<forall>x y i. region g x y = Some i \<longrightarrow>
            i \<in> set (m_regions g) \<and> (x, y) \<in> m_coords (heap g i))"

text \<open>
  All the regions of a grid, and all the regions its cells point at, have addresses from
  \<open>n\<close> on.
\<close>

definition regions_above :: "nat \<Rightarrow> Grid \<Rightarrow> bool" where
  "regions_above n g \<longleftrightarrow>
     n \<le> heap_next g \<and> (\<forall>i\<in>set (m_regions g). n \<le> i)
       \<and> (\<forall>x y i. region g x y = Some i \<longrightarrow> n \<le> i)"

text \<open>
  The regions and the cells of a grid agree when no region is listed twice, exactly the
  known cells point at a region, every cell of a listed region points at that region,
  and a cell is black exactly when the region it points at is black.
\<close>

definition regions_ok :: "Grid \<Rightarrow> bool" where
  "regions_ok g \<longleftrightarrow>
     distinct (m_regions g)
     \<and> (\<forall>x y. region g x y = None \<longleftrightarrow> cell g x y = UNKNOWN)
     \<and> (\<forall>i\<in>set (m_regions g). \<forall>x y. (x, y) \<in> m_coords (heap g i) \<longrightarrow> region g x y = Some i)
     \<and> (\<forall>x y i. region g x y = Some i \<longrightarrow> (black (heap g i) \<longleftrightarrow> cell g x y = BLACK))"

text \<open>
  A number of iterations that is enough for the loop of \<^verbatim>\<open>unreachable\<close> and for the loop
  of \<^verbatim>\<open>confined\<close> on the grid: the square of the number of cells plus one.
\<close>

definition enough_fuel :: "Grid \<Rightarrow> nat" where
  "enough_fuel g = (nat (m_width g * m_height g) + 1) * (nat (m_width g * m_height g) + 1)"

subsection \<open>Notions used in the proofs\<close>

text \<open>
  The measure of the loop of \<^verbatim>\<open>confined\<close>: the cells whose flag is not \<^verbatim>\<open>CLOSED\<close>, the
  cells whose flag is \<^verbatim>\<open>OPEN\<close>, and the number that decreases at every iteration.
\<close>

definition not_closed :: "Flag list \<Rightarrow> nat set" where
  "not_closed flags = {j. j < length flags \<and> flags ! j \<noteq> CLOSED}"

definition opened :: "Flag list \<Rightarrow> nat set" where
  "opened flags = {j. j < length flags \<and> flags ! j = OPEN}"

definition flags_measure :: "Flag list \<Rightarrow> nat" where
  "flags_measure flags = (length flags + 1) * card (not_closed flags) + card (opened flags)"

text \<open>
  What the loop of \<^verbatim>\<open>unreachable\<close> decides about the cell \<open>c\<close> it takes from the queue
  with the count \<open>n\<close>: with \<open>accepts\<close> the search ends and returns false, with \<open>expands\<close>
  the neighbours of \<open>c\<close> join the queue, otherwise the cell is dropped.
\<close>

definition accepts :: "Grid \<Rightarrow> coord \<Rightarrow> int \<Rightarrow> bool" where
  "accepts g c n \<longleftrightarrow>
     (case adjacent_regions g (fst c) (snd c) of (white_regions, numbered_regions) \<Rightarrow>
        let size = (\<Sum>i\<in>white_regions. size_R (heap g i))
                 + (\<Sum>i\<in>numbered_regions. size_R (heap g i))
        in if card numbered_regions > 1 then False
           else if card numbered_regions = 1
           then n + size \<le> number (heap g (Min numbered_regions))
           else white_regions \<noteq> {} \<and> \<not> impossibly_big_white_region g (n + size))"

definition expands :: "Grid \<Rightarrow> coord \<Rightarrow> bool" where
  "expands g c \<longleftrightarrow>
     (case adjacent_regions g (fst c) (snd c) of (white_regions, numbered_regions) \<Rightarrow>
        \<not> card numbered_regions > 1 \<and> card numbered_regions \<noteq> 1 \<and> white_regions = {})"

text \<open>
  \<open>walk g D c n\<close>: from the unknown cell \<open>c\<close>, taken with the count \<open>n\<close>, a chain of
  neighbouring unknown cells outside \<open>D\<close>, each of which the loop expands, leads to a
  cell at which the loop ends the search.
\<close>

inductive walk :: "Grid \<Rightarrow> coord set \<Rightarrow> coord \<Rightarrow> int \<Rightarrow> bool" for g :: Grid and D :: "coord set" where
  arrive: "cell g (fst c) (snd c) = UNKNOWN \<Longrightarrow> accepts g c n \<Longrightarrow> walk g D c n"
| move: "cell g (fst c) (snd c) = UNKNOWN \<Longrightarrow> expands g c
          \<Longrightarrow> c' \<in> set (for_valid_neighbors g (fst c) (snd c)) \<Longrightarrow> c' \<notin> D
          \<Longrightarrow> walk g D c' (n + 1) \<Longrightarrow> walk g D c n"

text \<open>The cells that the second lambda of \<^verbatim>\<open>unreachable\<close> adds to the queue.\<close>

definition fresh_neighbors :: "Grid \<Rightarrow> int \<Rightarrow> int \<Rightarrow> coord set \<Rightarrow> coord list" where
  "fresh_neighbors g x y D =
     filter (\<lambda>(a, b). cell g a b = UNKNOWN \<and> (a, b) \<notin> D) (for_valid_neighbors g x y)"

text \<open>The cells that the rule of unreachable cells marks.\<close>

definition unreachable_set :: "Grid \<Rightarrow> coord set" where
  "unreachable_set g =
     {c. valid g (fst c) (snd c) \<and> cell g (fst c) (snd c) = UNKNOWN \<and> \<not> walk g {} c 1}"

text \<open>
  \<open>same_islands g g'\<close>: the region pointers that do not lead to a black region, and the
  regions that are not black with their states and cells, are in \<open>g'\<close> as they are in
  \<open>g\<close>.
\<close>

definition same_islands :: "Grid \<Rightarrow> Grid \<Rightarrow> bool" where
  "same_islands g g' \<longleftrightarrow>
     (\<forall>a b i. region g a b = Some i \<and> \<not> black (heap g i) \<longrightarrow> region g' a b = Some i)
     \<and> (\<forall>a b. region g a b = None \<or> (\<exists>i. region g a b = Some i \<and> black (heap g i)) \<longrightarrow>
            region g' a b = None \<or> (\<exists>i. region g' a b = Some i \<and> black (heap g' i)))
     \<and> (\<forall>i\<in>set (m_regions g). \<not> black (heap g i) \<longrightarrow>
            i \<in> set (m_regions g') \<and> m_state (heap g' i) = m_state (heap g i)
              \<and> m_coords (heap g' i) = m_coords (heap g i))
     \<and> (\<forall>i\<in>set (m_regions g'). \<not> black (heap g' i) \<longrightarrow> i \<in> set (m_regions g))
     \<and> (\<forall>i. black (heap g i) \<longrightarrow> black (heap g' i))"

section \<open>Properties\<close>

lemma update_eq [simp]: "update f a b = f(a := b)"
  by (rule ext) (simp add: update_def)

subsection \<open>Marking a known cell\<close>

text \<open>
  Claim C5. For a cell \<open>(x, y)\<close> of the grid whose state is not Unknown and \<open>s\<close> White or
  Black, \<^verbatim>\<open>mark(s, x, y)\<close> returns normally with \<^verbatim>\<open>m_sitrep\<close> set to
  \<^verbatim>\<open>CONTRADICTION_FOUND\<close> and nothing else changed: the cells, the set of regions and
  every region on the heap are those of the grid before the call.
\<close>

theorem mark_known_cell:
  assumes "valid g x y" and "cell g x y \<noteq> UNKNOWN" and "s = WHITE \<or> s = BLACK"
  shows "mark s x y g = Inr (g\<lparr>m_sitrep := CONTRADICTION_FOUND\<rparr>)"
  using assms by (auto simp: mark_def)

theorem mark_known_cell_witness:
  "valid island_1 0 0 \<and> cell island_1 0 0 \<noteq> UNKNOWN \<and> (WHITE = WHITE \<or> WHITE = BLACK)
     \<and> mark WHITE 0 0 island_1 = Inr (island_1\<lparr>m_sitrep := CONTRADICTION_FOUND\<rparr>)"
proof -
  have v: "valid island_1 0 0" by code_simp
  have c: "cell island_1 0 0 \<noteq> UNKNOWN" by code_simp
  have s: "WHITE = WHITE \<or> WHITE = BLACK" by simp
  from mark_known_cell [OF v c s] v c show ?thesis by simp
qed

subsection \<open>Reachability of a known cell\<close>

text \<open>
  Claim C8. For a cell \<open>(x_root, y_root)\<close> of the grid whose state is not Unknown,
  \<^verbatim>\<open>unreachable\<close> returns false, whatever the set \<open>discovered\<close>; it does so before the
  search starts, so for every bound on the iterations of the loop.
\<close>

theorem unreachable_known_cell:
  assumes "valid g x_root y_root" and "cell g x_root y_root \<noteq> UNKNOWN"
  shows "unreachable fuel g x_root y_root discovered = Inr False"
  using assms by (simp add: unreachable_def)

theorem unreachable_known_cell_witness:
  "valid island_1 0 0 \<and> cell island_1 0 0 \<noteq> UNKNOWN
     \<and> unreachable 0 island_1 0 0 {(1, 0)} = Inr False"
proof -
  have v: "valid island_1 0 0" by code_simp
  have c: "cell island_1 0 0 \<noteq> UNKNOWN" by code_simp
  from unreachable_known_cell [OF v c] v c show ?thesis by simp
qed

subsection \<open>The cache of the confinement test\<close>

text \<open>
  Claim C10. When the set of verboten cells is not empty and the region \<open>r\<close> has no entry
  in the cache, \<^verbatim>\<open>confined\<close> returns false (not confined) and leaves the cache as it
  is. It returns before the loop over the open cells: the result needs no iteration of
  that loop, so it holds for every bound \<open>fuel\<close>, the bound 0 included.
\<close>

theorem confined_no_cache_entry:
  assumes "verboten \<noteq> {}" and "cache r = None"
  shows "confined fuel g r cache verboten = Inr (False, cache)"
  using assms by (simp add: confined_def)

theorem confined_no_cache_entry_witness:
  "{(1::int, 0::int)} \<noteq> {} \<and> (Map.empty :: cache_map_t) 0 = None
     \<and> confined 0 island_1 0 Map.empty {(1, 0)} = Inr (False, Map.empty)"
  using confined_no_cache_entry [of "{(1, 0)}" Map.empty 0 0 island_1] by simp

subsection \<open>Solving a solved grid\<close>

lemma detect_contradictions_False:
  assumes "detect_contradictions fuel g cache = Inr (False, g', cache')"
  shows "g' = g"
  using assms
  by (auto simp: detect_contradictions_def uh_oh_def split: if_splits sum.splits prod.splits)

text \<open>
  Claim C4. On a grid in which every cell is known and on which
  \<^verbatim>\<open>detect_contradictions\<close> returns false, \<^verbatim>\<open>solve\<close> returns \<^verbatim>\<open>SOLUTION_FOUND\<close> and the
  grid is the one it was given: no cell, no region and nothing else has changed. This
  holds with and without guessing.
\<close>

theorem solve_solved_grid:
  assumes "known g = m_width g * m_height g" and "no_contradiction fuel g"
  shows "solve fuel shuffle guessing g = Inr (SOLUTION_FOUND, g)"
proof -
  from assms(2) obtain g' cache
    where d: "detect_contradictions fuel g Map.empty = Inr (False, g', cache)"
    by (auto simp: no_contradiction_def split: sum.splits prod.splits)
  then have "g' = g" by (rule detect_contradictions_False)
  with d assms(1) show ?thesis by (simp add: solve_def solve_with_def)
qed

theorem solve_solved_grid_witness:
  "known island_1_solved = m_width island_1_solved * m_height island_1_solved
     \<and> no_contradiction 0 island_1_solved
     \<and> solve 0 (\<lambda>prng xs. (xs, prng)) True island_1_solved
         = Inr (SOLUTION_FOUND, island_1_solved)"
proof -
  have k: "known island_1_solved = m_width island_1_solved * m_height island_1_solved"
    by code_simp
  have n: "no_contradiction 0 island_1_solved" by code_simp
  from solve_solved_grid [OF k n] k n show ?thesis by simp
qed

subsection \<open>Cells under marking\<close>

lemma set_cells_xy: "set (cells_xy w h) = {(x, y). 0 \<le> x \<and> x < w \<and> 0 \<le> y \<and> y < h}"
  by (auto simp: cells_xy_def)

lemma repoint_apply:
  "repoint r1 cs cells q = (if q \<in> set cs then (fst (cells q), Some r1) else cells q)"
  unfolding repoint_def update_eq
proof (induction cs arbitrary: cells)
  case Nil
  then show ?case by simp
next
  case (Cons c cs)
  let ?cells = "cells(c := (fst (cells c), Some r1))"
  have "fold (\<lambda>c cells'. cells'(c := (fst (cells' c), Some r1))) (c # cs) cells q
          = fold (\<lambda>c cells'. cells'(c := (fst (cells' c), Some r1))) cs ?cells q" by simp
  also have "\<dots> = (if q \<in> set cs then (fst (?cells q), Some r1) else ?cells q)"
    by (rule Cons.IH)
  also have "\<dots> = (if q \<in> set (c # cs) then (fst (cells q), Some r1) else cells q)"
    by auto
  finally show ?case .
qed

lemma cell_fuse_regions [simp]: "cell (fuse_regions g p1 p2) a b = cell g a b"
  by (simp add: fuse_regions_def cell_def Let_def repoint_apply split: option.splits prod.splits)

lemma cell_fold_fuse:
  "cell (fold (\<lambda>(a, b) g'. fuse_regions g' (region g' x y) (region g' a b)) ps g) c d = cell g c d"
  by (induction ps arbitrary: g) (auto)

lemma add_region_cell:
  assumes "add_region g x y = Inr g'"
  shows "cell g' a b = cell g a b"
  using assms
  by (auto simp: add_region_def cell_def split: sum.splits)

lemma add_region_total:
  assumes "cell g x y \<noteq> UNKNOWN"
  shows "\<exists>g'. add_region g x y = Inr g'"
  using assms by (simp add: add_region_def Region_ctor_def)

lemma mark_total:
  assumes "s = WHITE \<or> s = BLACK"
  shows "\<exists>g'. mark s x y g = Inr g'"
proof (cases "cell g x y \<noteq> UNKNOWN")
  case True
  with assms show ?thesis by (auto simp: mark_def)
next
  case False
  let ?g1 = "g\<lparr>m_cells := (m_cells g)((x, y) := (s, region g x y))\<rparr>"
  let ?g2 = "?g1\<lparr>heap := fold (\<lambda>i h. h(i := unk_erase (h i) x y)) (m_regions ?g1) (heap ?g1)\<rparr>"
  have "cell ?g2 x y = s" by (simp add: cell_def)
  with assms have "cell ?g2 x y \<noteq> UNKNOWN" by (auto simp: WHITE_def BLACK_def UNKNOWN_def)
  then obtain g3 where "add_region ?g2 x y = Inr g3" using add_region_total by blast
  with False assms show ?thesis by (auto simp: mark_def Let_def)
qed

lemma mark_cell:
  assumes "mark s x y g = Inr g'"
  shows "cell g' a b = (if a = x \<and> b = y \<and> cell g x y = UNKNOWN then s else cell g a b)"
proof (cases "cell g x y \<noteq> UNKNOWN")
  case True
  with assms show ?thesis by (auto simp: mark_def cell_def split: if_splits)
next
  case False
  let ?g1 = "g\<lparr>m_cells := (m_cells g)((x, y) := (s, region g x y))\<rparr>"
  let ?g2 = "?g1\<lparr>heap := fold (\<lambda>i h. h(i := unk_erase (h i) x y)) (m_regions ?g1) (heap ?g1)\<rparr>"
  from assms False obtain g3 where a: "add_region ?g2 x y = Inr g3"
    and g': "g' = fold (\<lambda>(a, b) g'. fuse_regions g' (region g' x y) (region g' a b))
                      (for_valid_neighbors g3 x y) g3"
    by (auto simp: mark_def Let_def split: if_splits sum.splits)
  have "cell g' a b = cell g3 a b" unfolding g' by (rule cell_fold_fuse)
  also have "\<dots> = cell ?g2 a b" using a by (rule add_region_cell)
  also have "\<dots> = (if a = x \<and> b = y then s else cell g a b)" by (simp add: cell_def)
  finally show ?thesis using False by simp
qed

lemma mark_all_cell:
  assumes "mark_all s ps g = Inr g'"
  shows "cell g' a b = (if (a, b) \<in> set ps \<and> cell g a b = UNKNOWN then s else cell g a b)"
  using assms
proof (induction ps arbitrary: g)
  case Nil
  then show ?case by simp
next
  case (Cons p ps)
  obtain x y where p: "p = (x, y)" by (cases p)
  from Cons.prems p obtain g1 where m: "mark s x y g = Inr g1" and r: "mark_all s ps g1 = Inr g'"
    by (auto split: sum.splits)
  from Cons.IH [OF r] mark_cell [OF m] p show ?case
    by auto
qed

subsection \<open>The dual-liberty rule\<close>

lemma dual_liberties_step_mono: "mb \<subseteq> dual_liberties_step g r mb"
  by (auto simp: dual_liberties_step_def Let_def)

lemma dual_liberties_step_unknown:
  assumes "p \<in> dual_liberties_step g r mb" and "p \<notin> mb"
  shows "cell g (fst p) (snd p) = UNKNOWN"
  using assms by (auto simp: dual_liberties_step_def Let_def split: if_splits)

lemma dual_liberties_fold_mono:
  "mb \<subseteq> fold (\<lambda>i mark_as_black. dual_liberties_step g (heap g i) mark_as_black) is mb"
proof (induction "is" arbitrary: mb)
  case Nil
  then show ?case by simp
next
  case (Cons i "is")
  have "mb \<subseteq> dual_liberties_step g (heap g i) mb" by (rule dual_liberties_step_mono)
  also have "\<dots> \<subseteq> fold (\<lambda>i mark_as_black. dual_liberties_step g (heap g i) mark_as_black) is
                       (dual_liberties_step g (heap g i) mb)" by (rule Cons.IH)
  finally show ?case by simp
qed

lemma dual_liberties_fold_step:
  assumes "i \<in> set is"
  shows "dual_liberties_step g (heap g i) {}
           \<subseteq> fold (\<lambda>i mark_as_black. dual_liberties_step g (heap g i) mark_as_black) is mb"
  using assms
proof (induction "is" arbitrary: mb)
  case Nil
  then show ?case by simp
next
  case (Cons k "is")
  show ?case
  proof (cases "i = k")
    case True
    have "dual_liberties_step g (heap g i) {} \<subseteq> dual_liberties_step g (heap g i) mb"
      by (auto simp: dual_liberties_step_def Let_def)
    also have "\<dots> \<subseteq> fold (\<lambda>i mark_as_black. dual_liberties_step g (heap g i) mark_as_black) is
                         (dual_liberties_step g (heap g i) mb)" by (rule dual_liberties_fold_mono)
    finally show ?thesis using True by simp
  next
    case False
    with Cons.prems have "i \<in> set is" by simp
    from Cons.IH [OF this] show ?thesis by simp
  qed
qed

lemma dual_liberties_fold_unknown:
  assumes "p \<in> fold (\<lambda>i mark_as_black. dual_liberties_step g (heap g i) mark_as_black) is mb"
    and "p \<notin> mb"
  shows "cell g (fst p) (snd p) = UNKNOWN"
  using assms
proof (induction "is" arbitrary: mb)
  case Nil
  then show ?case by simp
next
  case (Cons i "is")
  show ?case
  proof (cases "p \<in> dual_liberties_step g (heap g i) mb")
    case True
    then show ?thesis using Cons.prems(2) by (rule dual_liberties_step_unknown)
  next
    case False
    with Cons.prems(1) Cons.IH [of "dual_liberties_step g (heap g i) mb"] show ?thesis by simp
  qed
qed

lemma unk_list_pair:
  assumes "m_unknowns r = {u1, u2}" and "u1 < u2"
  shows "unk_list r = [u1, u2]"
  using assms by (auto simp: unk_list_def)

lemma dual_liberties_step_far:
  assumes "numbered r" and "size_R r = number r - 1"
    and "m_unknowns r = {u1, u2}" and "u1 < u2"
    and "\<bar>fst u1 - fst u2\<bar> = 1" and "\<bar>snd u1 - snd u2\<bar> = 1"
  shows "dual_liberties_step g r mb =
           (if cell g (fst (far_corner r u1 u2)) (snd (far_corner r u1 u2)) = UNKNOWN
            then insert (far_corner r u1 u2) mb else mb)"
proof -
  from assms(3,4) have "u1 \<noteq> u2" by auto
  with assms(3) have "unk_size r = 2" by (simp add: unk_size_def)
  with assms unk_list_pair [OF assms(3,4)] show ?thesis
    by (simp add: dual_liberties_step_def far_corner_def Let_def)
qed

lemma mark_all_total:
  assumes "s = WHITE \<or> s = BLACK"
  shows "\<exists>g'. mark_all s ps g = Inr g'"
proof (induction ps arbitrary: g)
  case Nil
  then show ?case by simp
next
  case (Cons p ps)
  obtain x y where p: "p = (x, y)" by (cases p)
  from mark_total [OF assms] obtain g1 where "mark s x y g = Inr g1" by blast
  with Cons.IH [of g1] p show ?case by auto
qed

lemma process_total: "\<exists>b g'. process g mb mw = Inr (b, g')"
proof -
  obtain g1 where 1: "mark_all BLACK (sorted_list_of_set mb) g = Inr g1"
    using mark_all_total [of BLACK] by blast
  obtain g2 where 2: "mark_all WHITE (sorted_list_of_set mw) g1 = Inr g2"
    using mark_all_total [of WHITE] by blast
  from 1 2 show ?thesis by (auto simp: process_def)
qed

lemma process_changed:
  assumes "process g mb mw = Inr (b, g')"
  shows "b \<longleftrightarrow> mb \<noteq> {} \<or> mw \<noteq> {}"
  using assms by (auto simp: process_def split: if_splits sum.splits)

lemma process_black_cell:
  assumes "process g mb mw = Inr (b, g')" and "finite mb" and "p \<in> mb"
    and "cell g (fst p) (snd p) = UNKNOWN"
  shows "cell g' (fst p) (snd p) = BLACK"
proof -
  from assms(1,3) obtain g1 where 1: "mark_all BLACK (sorted_list_of_set mb) g = Inr g1"
    and 2: "mark_all WHITE (sorted_list_of_set mw) g1 = Inr g'"
    by (auto simp: process_def split: if_splits sum.splits)
  from assms(2,3) have "(fst p, snd p) \<in> set (sorted_list_of_set mb)" by simp
  with mark_all_cell [OF 1, of "fst p" "snd p"] assms(4) have "cell g1 (fst p) (snd p) = BLACK"
    by simp
  with mark_all_cell [OF 2, of "fst p" "snd p"] show ?thesis
    by (simp add: BLACK_def UNKNOWN_def)
qed

lemma dual_liberties_step_finite: "finite mb \<Longrightarrow> finite (dual_liberties_step g r mb)"
  by (simp add: dual_liberties_step_def Let_def)

lemma dual_liberties_fold_finite:
  "finite mb \<Longrightarrow>
   finite (fold (\<lambda>i mark_as_black. dual_liberties_step g (heap g i) mark_as_black) is mb)"
  by (induction "is" arbitrary: mb) (simp_all add: dual_liberties_step_finite)

text \<open>
  Claim C7. Let \<open>r\<close> be a numbered region of the grid of size \<open>n - 1\<close> with exactly two
  liberties that are diagonal neighbours, \<open>u1\<close> the first and \<open>u2\<close> the second in the
  order of the set (the order in which the source reads them). Then the iteration of the
  rule for \<open>r\<close> selects the far corner \<open>(u2.x, u1.y)\<close> if \<open>r\<close> contains \<open>(u1.x, u2.y)\<close>
  and \<open>(u1.x, u2.y)\<close> otherwise, and inserts it into \<^verbatim>\<open>mark_as_black\<close> exactly when its
  cell is Unknown; the rule as a whole proposes the far corner as black if and only if
  it is Unknown, and in that case returns true with the far corner Black.
\<close>

theorem dual_liberties_far_corner:
  assumes "i \<in> set (m_regions g)"
    and "numbered (heap g i)" and "size_R (heap g i) = number (heap g i) - 1"
    and "m_unknowns (heap g i) = {u1, u2}" and "u1 < u2"
    and "\<bar>fst u1 - fst u2\<bar> = 1" and "\<bar>snd u1 - snd u2\<bar> = 1"
    and "far = far_corner (heap g i) u1 u2"
  shows "dual_liberties_step g (heap g i) mb =
           (if cell g (fst far) (snd far) = UNKNOWN then insert far mb else mb)
         \<and> (far \<in> fst (dual_liberties_marks g) \<longleftrightarrow> cell g (fst far) (snd far) = UNKNOWN)
         \<and> (cell g (fst far) (snd far) = UNKNOWN \<longrightarrow>
              (\<exists>g'. analyze_dual_liberties g = Inr (True, g')
                    \<and> cell g' (fst far) (snd far) = BLACK))"
proof -
  let ?marks = "fold (\<lambda>i mark_as_black. dual_liberties_step g (heap g i) mark_as_black)
                  (m_regions g) {}"
  have step: "dual_liberties_step g (heap g i) mb =
           (if cell g (fst far) (snd far) = UNKNOWN then insert far mb else mb)" for mb
    using dual_liberties_step_far [OF assms(2-7)] assms(8) by simp
  have marks: "fst (dual_liberties_marks g) = ?marks" by (simp add: dual_liberties_marks_def)
  have iff: "far \<in> ?marks \<longleftrightarrow> cell g (fst far) (snd far) = UNKNOWN"
  proof
    assume "far \<in> ?marks"
    then show "cell g (fst far) (snd far) = UNKNOWN"
      by (rule dual_liberties_fold_unknown) simp
  next
    assume "cell g (fst far) (snd far) = UNKNOWN"
    with step [of "{}"] have "far \<in> dual_liberties_step g (heap g i) {}" by simp
    with dual_liberties_fold_step [OF assms(1), of g "{}"] show "far \<in> ?marks" by blast
  qed
  have commit: "\<exists>g'. analyze_dual_liberties g = Inr (True, g')
                    \<and> cell g' (fst far) (snd far) = BLACK"
    if u: "cell g (fst far) (snd far) = UNKNOWN"
  proof -
    from u iff have m: "far \<in> ?marks" by simp
    obtain b g' where p: "process g ?marks {} = Inr (b, g')" using process_total by blast
    from process_changed [OF p] m have b by auto
    have "finite ?marks" by (rule dual_liberties_fold_finite) simp
    from process_black_cell [OF p this m u] have "cell g' (fst far) (snd far) = BLACK" .
    with p \<open>b\<close> show ?thesis by (simp add: analyze_dual_liberties_def dual_liberties_marks_def)
  qed
  from step iff commit marks show ?thesis by simp
qed

theorem dual_liberties_far_corner_witness:
  "0 \<in> set (m_regions island_2)
   \<and> numbered (heap island_2 0) \<and> size_R (heap island_2 0) = number (heap island_2 0) - 1
   \<and> m_unknowns (heap island_2 0) = {(0, 1), (1, 0)} \<and> ((0, 1) :: coord) < (1, 0)
   \<and> contains (heap island_2 0) 0 0
   \<and> (1, 1) = far_corner (heap island_2 0) (0, 1) (1, 0)
   \<and> cell island_2 1 1 = UNKNOWN
   \<and> dual_liberties_step island_2 (heap island_2 0) {} = {(1, 1)}
   \<and> (1, 1) \<in> fst (dual_liberties_marks island_2)
   \<and> (\<exists>g'. analyze_dual_liberties island_2 = Inr (True, g') \<and> cell g' 1 1 = BLACK)"
proof -
  have 1: "0 \<in> set (m_regions island_2)" by code_simp
  have 2: "numbered (heap island_2 0)" by code_simp
  have 3: "size_R (heap island_2 0) = number (heap island_2 0) - 1" by code_simp
  have 4: "m_unknowns (heap island_2 0) = {(0, 1), (1, 0)}" by code_simp
  have 5: "((0, 1) :: coord) < (1, 0)" by simp
  have 6: "\<bar>fst ((0, 1) :: coord) - fst ((1, 0) :: coord)\<bar> = 1" by simp
  have 7: "\<bar>snd ((0, 1) :: coord) - snd ((1, 0) :: coord)\<bar> = 1" by simp
  have c: "contains (heap island_2 0) 0 0" by code_simp
  then have 8: "far_corner (heap island_2 0) (0, 1) (1, 0) = (1, 1)"
    by (simp add: far_corner_def)
  have u: "cell island_2 1 1 = UNKNOWN" by code_simp
  from dual_liberties_far_corner [OF 1 2 3 4 5 6 7 8 [symmetric], of "{}"] 1 2 3 4 5 c 8 u
  show ?thesis by simp
qed

subsection \<open>Confinement analysis\<close>

lemma confined_loop_cache:
  assumes "confined_loop fuel g r False flags closed_size cache = Inr (b, cache')"
  shows "cache' = cache"
  using assms
proof (induction fuel arbitrary: flags closed_size)
  case 0
  then show ?case by (simp split: if_splits)
next
  case (Suc fuel)
  then show ?case
    by (simp add: Let_def split: if_splits decision.splits option.splits)
qed

lemma confined_cache:
  assumes "verboten \<noteq> {}" and "confined fuel g r cache verboten = Inr (b, cache')"
  shows "cache' = cache"
  using assms
  by (auto simp: confined_def Let_def split: if_splits dest: confined_loop_cache)

lemma confinement_regions_marks:
  assumes "confinement_regions fuel g u is (mb, mw, cache) = Inr (mb', mw', cache')"
  shows "cache' = cache \<and> mb \<subseteq> mb' \<and> mw \<subseteq> mw'
     \<and> (\<forall>i\<in>set is. returns_true (confined fuel g i cache {u}) \<longrightarrow>
           (if black (heap g i) then u \<in> mb' else u \<in> mw'))"
  using assms
proof (induction "is" arbitrary: mb mw)
  case Nil
  then show ?case by simp
next
  case (Cons i "is")
  from Cons.prems obtain b c1 where c: "confined fuel g i cache {u} = Inr (b, c1)"
    by (auto split: sum.splits)
  then have c1: "c1 = cache" using confined_cache [of "{u}"] by blast
  let ?mb = "if b \<and> black (heap g i) then insert u mb else mb"
  let ?mw = "if b \<and> \<not> black (heap g i) then insert u mw else mw"
  from Cons.prems c c1 have r: "confinement_regions fuel g u is (?mb, ?mw, cache) = Inr (mb', mw', cache')"
    by (auto split: if_splits)
  from Cons.IH [OF r] have ih: "cache' = cache" "?mb \<subseteq> mb'" "?mw \<subseteq> mw'"
    "\<forall>i\<in>set is. returns_true (confined fuel g i cache {u}) \<longrightarrow>
           (if black (heap g i) then u \<in> mb' else u \<in> mw')" by auto
  from ih(2) have "mb \<subseteq> mb'" by (auto split: if_splits)
  moreover from ih(3) have "mw \<subseteq> mw'" by (auto split: if_splits)
  moreover have "returns_true (confined fuel g i cache {u}) \<longrightarrow>
           (if black (heap g i) then u \<in> mb' else u \<in> mw')"
    using c ih(2,3) by (auto simp: returns_true_def split: if_splits)
  ultimately show ?case using ih(1,4) by simp
qed

lemma confinement_cells_marks:
  assumes "confinement_cells fuel g ps (mb, mw, cache) = Inr (mb', mw', cache')"
  shows "cache' = cache \<and> mb \<subseteq> mb' \<and> mw \<subseteq> mw'
     \<and> (\<forall>(x, y)\<in>set ps. cell g x y = UNKNOWN \<longrightarrow>
          (\<forall>i\<in>set (m_regions g). returns_true (confined fuel g i cache {(x, y)}) \<longrightarrow>
             (if black (heap g i) then (x, y) \<in> mb' else (x, y) \<in> mw')))"
  using assms
proof (induction ps arbitrary: mb mw)
  case Nil
  then show ?case by simp
next
  case (Cons p ps)
  obtain x y where p: "p = (x, y)" by (cases p)
  show ?case
  proof (cases "cell g x y = UNKNOWN")
    case True
    with Cons.prems p obtain mb1 mw1 c1
      where 1: "confinement_regions fuel g (x, y) (m_regions g) (mb, mw, cache) = Inr (mb1, mw1, c1)"
        and 2: "confinement_cells fuel g ps (mb1, mw1, c1) = Inr (mb', mw', cache')"
      by (auto split: sum.splits)
    from confinement_regions_marks [OF 1] have a: "c1 = cache" "mb \<subseteq> mb1" "mw \<subseteq> mw1"
      "\<forall>i\<in>set (m_regions g). returns_true (confined fuel g i cache {(x, y)}) \<longrightarrow>
           (if black (heap g i) then (x, y) \<in> mb1 else (x, y) \<in> mw1)" by auto
    from Cons.IH [OF 2 [unfolded a(1)]] have b: "cache' = cache" "mb1 \<subseteq> mb'" "mw1 \<subseteq> mw'"
      "\<forall>(x, y)\<in>set ps. cell g x y = UNKNOWN \<longrightarrow>
          (\<forall>i\<in>set (m_regions g). returns_true (confined fuel g i cache {(x, y)}) \<longrightarrow>
             (if black (heap g i) then (x, y) \<in> mb' else (x, y) \<in> mw'))" by auto
    from a(4) b(2,3) have "\<forall>i\<in>set (m_regions g). returns_true (confined fuel g i cache {(x, y)}) \<longrightarrow>
           (if black (heap g i) then (x, y) \<in> mb' else (x, y) \<in> mw')"
      by (auto split: if_splits)
    with a(2,3) b p show ?thesis by auto
  next
    case False
    with Cons.prems p have "confinement_cells fuel g ps (mb, mw, cache) = Inr (mb', mw', cache')"
      by simp
    from Cons.IH [OF this] False p show ?thesis by auto
  qed
qed

lemma confinement_others_mono:
  assumes "confinement_others fuel g i u verboten ks (mb, mw, cache) = Inr (mb', mw', cache')"
  shows "mb \<subseteq> mb' \<and> mw \<subseteq> mw'"
  using assms
proof (induction ks arbitrary: mb mw cache)
  case Nil
  then show ?case by simp
next
  case (Cons k ks)
  show ?case
  proof (cases "k \<noteq> i \<and> numbered (heap g k)")
    case True
    with Cons.prems obtain b c1 where
      "confinement_others fuel g i u verboten ks
         (if b then insert u mb else mb, mw, c1) = Inr (mb', mw', cache')"
      by (auto split: sum.splits)
    from Cons.IH [OF this] show ?thesis by (auto split: if_splits)
  next
    case False
    with Cons.prems have "confinement_others fuel g i u verboten ks (mb, mw, cache) = Inr (mb', mw', cache')"
      by auto
    from Cons.IH [OF this] show ?thesis .
  qed
qed

lemma confinement_liberties_mono:
  assumes "confinement_liberties fuel g i us (mb, mw, cache) = Inr (mb', mw', cache')"
  shows "mb \<subseteq> mb' \<and> mw \<subseteq> mw'"
  using assms
proof (induction us arbitrary: mb mw cache)
  case Nil
  then show ?case by simp
next
  case (Cons u us)
  from Cons.prems obtain mb1 mw1 c1 where
    1: "confinement_others fuel g i u (insert_valid_unknown_neighbors g {u} (fst u) (snd u))
          (m_regions g) (mb, mw, cache) = Inr (mb1, mw1, c1)"
    and 2: "confinement_liberties fuel g i us (mb1, mw1, c1) = Inr (mb', mw', cache')"
    by (auto split: sum.splits)
  from confinement_others_mono [OF 1] Cons.IH [OF 2] show ?case by auto
qed

lemma confinement_partial_mono:
  assumes "confinement_partial fuel g is (mb, mw, cache) = Inr (mb', mw', cache')"
  shows "mb \<subseteq> mb' \<and> mw \<subseteq> mw'"
  using assms
proof (induction "is" arbitrary: mb mw cache)
  case Nil
  then show ?case by simp
next
  case (Cons i "is")
  show ?case
  proof (cases "numbered (heap g i) \<and> size_R (heap g i) < number (heap g i)")
    case True
    with Cons.prems obtain mb1 mw1 c1 where
      1: "confinement_liberties fuel g i (unk_list (heap g i)) (mb, mw, cache) = Inr (mb1, mw1, c1)"
      and 2: "confinement_partial fuel g is (mb1, mw1, c1) = Inr (mb', mw', cache')"
      by (auto split: sum.splits)
    from confinement_liberties_mono [OF 1] Cons.IH [OF 2] show ?thesis by auto
  next
    case False
    with Cons.prems have "confinement_partial fuel g is (mb, mw, cache) = Inr (mb', mw', cache')"
      by auto
    from Cons.IH [OF this] show ?thesis .
  qed
qed

lemma confinement_regions_finite:
  assumes "confinement_regions fuel g u is (mb, mw, cache) = Inr (mb', mw', cache')"
    and "finite mb" and "finite mw"
  shows "finite mb' \<and> finite mw'"
  using assms
proof (induction "is" arbitrary: mb mw cache)
  case Nil
  then show ?case by simp
next
  case (Cons i "is")
  from Cons.prems(1) obtain mb1 mw1 c1 where
    1: "confinement_regions fuel g u is (mb1, mw1, c1) = Inr (mb', mw', cache')"
    and 2: "mb1 = mb \<or> mb1 = insert u mb" "mw1 = mw \<or> mw1 = insert u mw"
    by (auto split: sum.splits if_splits)
  from 2 Cons.prems(2,3) have "finite mb1" "finite mw1" by auto
  from Cons.IH [OF 1 this] show ?case .
qed

lemma confinement_cells_finite:
  assumes "confinement_cells fuel g ps (mb, mw, cache) = Inr (mb', mw', cache')"
    and "finite mb" and "finite mw"
  shows "finite mb' \<and> finite mw'"
  using assms
proof (induction ps arbitrary: mb mw cache)
  case Nil
  then show ?case by simp
next
  case (Cons p ps)
  obtain x y where p: "p = (x, y)" by (cases p)
  show ?case
  proof (cases "cell g x y = UNKNOWN")
    case True
    with Cons.prems(1) p obtain mb1 mw1 c1
      where 1: "confinement_regions fuel g (x, y) (m_regions g) (mb, mw, cache) = Inr (mb1, mw1, c1)"
        and 2: "confinement_cells fuel g ps (mb1, mw1, c1) = Inr (mb', mw', cache')"
      by (auto split: sum.splits)
    from confinement_regions_finite [OF 1 Cons.prems(2,3)] have "finite mb1" "finite mw1"
      by simp_all
    from Cons.IH [OF 2 this] show ?thesis .
  next
    case False
    with Cons.prems(1) p have "confinement_cells fuel g ps (mb, mw, cache) = Inr (mb', mw', cache')"
      by simp
    from Cons.IH [OF this Cons.prems(2,3)] show ?thesis .
  qed
qed

lemma confinement_others_finite:
  assumes "confinement_others fuel g i u verboten ks (mb, mw, cache) = Inr (mb', mw', cache')"
    and "finite mb" and "finite mw"
  shows "finite mb' \<and> finite mw'"
  using assms
proof (induction ks arbitrary: mb mw cache)
  case Nil
  then show ?case by simp
next
  case (Cons k ks)
  show ?case
  proof (cases "k \<noteq> i \<and> numbered (heap g k)")
    case True
    with Cons.prems(1) obtain b c1 where
      1: "confinement_others fuel g i u verboten ks
         (if b then insert u mb else mb, mw, c1) = Inr (mb', mw', cache')"
      by (auto split: sum.splits)
    have "finite (if b then insert u mb else mb)" using Cons.prems(2) by simp
    from Cons.IH [OF 1 this Cons.prems(3)] show ?thesis .
  next
    case False
    with Cons.prems(1) have "confinement_others fuel g i u verboten ks (mb, mw, cache) = Inr (mb', mw', cache')"
      by auto
    from Cons.IH [OF this Cons.prems(2,3)] show ?thesis .
  qed
qed

lemma confinement_liberties_finite:
  assumes "confinement_liberties fuel g i us (mb, mw, cache) = Inr (mb', mw', cache')"
    and "finite mb" and "finite mw"
  shows "finite mb' \<and> finite mw'"
  using assms
proof (induction us arbitrary: mb mw cache)
  case Nil
  then show ?case by simp
next
  case (Cons u us)
  from Cons.prems(1) obtain mb1 mw1 c1 where
    1: "confinement_others fuel g i u (insert_valid_unknown_neighbors g {u} (fst u) (snd u))
          (m_regions g) (mb, mw, cache) = Inr (mb1, mw1, c1)"
    and 2: "confinement_liberties fuel g i us (mb1, mw1, c1) = Inr (mb', mw', cache')"
    by (auto split: sum.splits)
  from confinement_others_finite [OF 1 Cons.prems(2,3)] have "finite mb1" "finite mw1"
    by simp_all
  from Cons.IH [OF 2 this] show ?case .
qed

lemma confinement_partial_finite:
  assumes "confinement_partial fuel g is (mb, mw, cache) = Inr (mb', mw', cache')"
    and "finite mb" and "finite mw"
  shows "finite mb' \<and> finite mw'"
  using assms
proof (induction "is" arbitrary: mb mw cache)
  case Nil
  then show ?case by simp
next
  case (Cons i "is")
  show ?case
  proof (cases "numbered (heap g i) \<and> size_R (heap g i) < number (heap g i)")
    case True
    with Cons.prems(1) obtain mb1 mw1 c1 where
      1: "confinement_liberties fuel g i (unk_list (heap g i)) (mb, mw, cache) = Inr (mb1, mw1, c1)"
      and 2: "confinement_partial fuel g is (mb1, mw1, c1) = Inr (mb', mw', cache')"
      by (auto split: sum.splits)
    from confinement_liberties_finite [OF 1 Cons.prems(2,3)] have "finite mb1" "finite mw1"
      by simp_all
    from Cons.IH [OF 2 this] show ?thesis .
  next
    case False
    with Cons.prems(1) have "confinement_partial fuel g is (mb, mw, cache) = Inr (mb', mw', cache')"
      by auto
    from Cons.IH [OF this Cons.prems(2,3)] show ?thesis .
  qed
qed

lemma confinement_marks_finite:
  assumes "confinement_marks fuel g cache = Inr (mark_as_black, mark_as_white, cache')"
  shows "finite mark_as_black \<and> finite mark_as_white"
proof -
  from assms obtain mb1 mw1 c1 where
    1: "confinement_cells fuel g (cells_xy (m_width g) (m_height g)) ({}, {}, cache)
          = Inr (mb1, mw1, c1)"
    and 2: "confinement_partial fuel g (m_regions g) (mb1, mw1, c1)
          = Inr (mark_as_black, mark_as_white, cache')"
    by (auto simp: confinement_marks_def split: sum.splits)
  from confinement_cells_finite [OF 1] have "finite mb1" "finite mw1" by simp_all
  from confinement_partial_finite [OF 2 this] show ?thesis .
qed

lemma process_white_cell:
  assumes "process g mb mw = Inr (b, g')" and "finite mw" and "p \<in> mw" and "p \<notin> mb"
    and "cell g (fst p) (snd p) = UNKNOWN"
  shows "cell g' (fst p) (snd p) = WHITE"
proof -
  from assms(1,3) obtain g1 where 1: "mark_all BLACK (sorted_list_of_set mb) g = Inr g1"
    and 2: "mark_all WHITE (sorted_list_of_set mw) g1 = Inr g'"
    by (auto simp: process_def split: if_splits sum.splits)
  have "(fst p, snd p) \<notin> set (sorted_list_of_set mb)"
  proof (cases "finite mb")
    case True
    with assms(4) show ?thesis by simp
  next
    case False
    then show ?thesis by (simp add: sorted_list_of_set.fold_insort_key.infinite)
  qed
  with mark_all_cell [OF 1, of "fst p" "snd p"] assms(5) have "cell g1 (fst p) (snd p) = UNKNOWN"
    by simp
  moreover from assms(2,3) have "(fst p, snd p) \<in> set (sorted_list_of_set mw)" by simp
  ultimately show ?thesis using mark_all_cell [OF 2, of "fst p" "snd p"] by simp
qed

subsection \<open>Hypothetical search\<close>

lemma hypotheticals_loop_skip:
  assumes "\<forall>((x', y'), c')\<in>set pre. \<exists>sr. guess fuel g c' x' y' = Inr sr
              \<and> sr \<noteq> CONTRADICTION_FOUND \<and> sr \<noteq> SOLUTION_FOUND"
  shows "hypotheticals_loop fuel g (pre @ rest) = hypotheticals_loop fuel g rest"
  using assms
proof (induction pre)
  case Nil
  then show ?case by simp
next
  case (Cons p pre)
  obtain x' y' c' where p: "p = ((x', y'), c')" by (cases p) auto
  from Cons.prems p obtain sr where "guess fuel g c' x' y' = Inr sr"
    "sr \<noteq> CONTRADICTION_FOUND" "sr \<noteq> SOLUTION_FOUND" by auto
  moreover from Cons.prems have "hypotheticals_loop fuel g (pre @ rest) = hypotheticals_loop fuel g rest"
    by (intro Cons.IH) auto
  ultimately show ?case using p by simp
qed

lemma process_single_black:
  assumes "mark BLACK x y g = Inr g'"
  shows "process g {(x, y)} {} = Inr (True, g')"
  using assms by (simp add: process_def)

lemma process_single_white:
  assumes "mark WHITE x y g = Inr g'"
  shows "process g {} {(x, y)} = Inr (True, g')"
  using assms by (simp add: process_def)

lemma guesses_color:
  assumes "(p, c) \<in> set (guesses v)"
  shows "c = BLACK \<or> c = WHITE"
  using assms by (auto simp: guesses_def)

lemma guessing_order_cell:
  assumes "guessing_order shuffle g = (v, g1)"
  shows "cell g1 x y = cell g x y"
  using assms by (auto simp: guessing_order_def Let_def cell_def split: prod.splits)

text \<open>
  Claim C6. Let \<open>v\<close> be the guessing order and \<open>g1\<close> the true grid after computing it
  (only the generator has advanced). Let \<open>((x, y), c)\<close> be the first guess, in the order
  cell by cell and Black before White, whose run on the copy ends with
  \<^verbatim>\<open>CONTRADICTION_FOUND\<close> or \<^verbatim>\<open>SOLUTION_FOUND\<close>: every guess before it ended otherwise.
  If it ends with a contradiction, hypothetical search returns true and the grid it
  leaves is the true grid after \<^verbatim>\<open>mark\<close> of the opposite colour at \<open>(x, y)\<close>; if it ends
  with a solution, it returns true and the grid is the true grid after \<^verbatim>\<open>mark\<close> of the
  colour \<open>c\<close> at \<open>(x, y)\<close>. The cell, when it was Unknown, has that colour afterwards.
\<close>

theorem hypothetical_search_decides:
  assumes "guessing_order shuffle g = (v, g1)"
    and "guesses v = pre @ ((x, y), c) # post"
    and "\<forall>((x', y'), c')\<in>set pre. \<exists>sr. guess fuel g1 c' x' y' = Inr sr
              \<and> sr \<noteq> CONTRADICTION_FOUND \<and> sr \<noteq> SOLUTION_FOUND"
    and "guess fuel g1 c x y = Inr sr"
  shows "(sr = CONTRADICTION_FOUND \<longrightarrow>
           (\<exists>g'. analyze_hypotheticals fuel shuffle g = Inr (True, g')
                 \<and> mark (opposite c) x y g1 = Inr g'
                 \<and> (cell g x y = UNKNOWN \<longrightarrow> cell g' x y = opposite c)))
       \<and> (sr = SOLUTION_FOUND \<longrightarrow>
           (\<exists>g'. analyze_hypotheticals fuel shuffle g = Inr (True, g')
                 \<and> mark c x y g1 = Inr g'
                 \<and> (cell g x y = UNKNOWN \<longrightarrow> cell g' x y = c)))"
proof -
  have "((x, y), c) \<in> set (guesses v)" using assms(2) by simp
  then have c: "c = BLACK \<or> c = WHITE" by (rule guesses_color)
  then have oc: "opposite c = WHITE \<or> opposite c = BLACK" by (auto simp: opposite_def)
  have loop: "analyze_hypotheticals fuel shuffle g
                = hypotheticals_loop fuel g1 (((x, y), c) # post)"
    using assms(1,2) hypotheticals_loop_skip [OF assms(3)]
    by (simp add: analyze_hypotheticals_def)
  have cell1: "cell g1 x y = cell g x y" using assms(1) by (rule guessing_order_cell)
  have contra: "\<exists>g'. analyze_hypotheticals fuel shuffle g = Inr (True, g')
                 \<and> mark (opposite c) x y g1 = Inr g'
                 \<and> (cell g x y = UNKNOWN \<longrightarrow> cell g' x y = opposite c)"
    if sr: "sr = CONTRADICTION_FOUND"
  proof -
    from mark_total [OF oc] obtain g' where m: "mark (opposite c) x y g1 = Inr g'" by blast
    have "analyze_hypotheticals fuel shuffle g = Inr (True, g')"
    proof (cases "c = BLACK")
      case True
      with m have "process g1 {} {(x, y)} = Inr (True, g')"
        by (simp add: opposite_def process_single_white)
      with loop assms(4) sr True show ?thesis by simp
    next
      case False
      with m have "process g1 {(x, y)} {} = Inr (True, g')"
        by (simp add: opposite_def process_single_black)
      with loop assms(4) sr False show ?thesis by simp
    qed
    with m mark_cell [OF m, of x y] cell1 show ?thesis by simp
  qed
  have sol: "\<exists>g'. analyze_hypotheticals fuel shuffle g = Inr (True, g')
                 \<and> mark c x y g1 = Inr g'
                 \<and> (cell g x y = UNKNOWN \<longrightarrow> cell g' x y = c)"
    if sr: "sr = SOLUTION_FOUND"
  proof -
    from c have "c = WHITE \<or> c = BLACK" by auto
    from mark_total [OF this] obtain g' where m: "mark c x y g1 = Inr g'" by blast
    have "analyze_hypotheticals fuel shuffle g = Inr (True, g')"
    proof (cases "c = BLACK")
      case True
      with m have "process g1 {(x, y)} {} = Inr (True, g')"
        by (simp add: process_single_black)
      with loop assms(4) sr True show ?thesis by simp
    next
      case False
      with c m have "process g1 {} {(x, y)} = Inr (True, g')"
        by (simp add: process_single_white)
      with loop assms(4) sr False show ?thesis by simp
    qed
    with m mark_cell [OF m, of x y] cell1 show ?thesis by simp
  qed
  from contra sol show ?thesis by blast
qed

theorem hypothetical_search_decides_witness:
  "guesses (fst (guessing_order no_shuffle island_1)) = [] @ ((1, 0), BLACK) # [((1, 0), WHITE)]
   \<and> guess 9 (snd (guessing_order no_shuffle island_1)) BLACK 1 0 = Inr SOLUTION_FOUND
   \<and> cell island_1 1 0 = UNKNOWN
   \<and> (\<exists>g'. analyze_hypotheticals 9 no_shuffle island_1 = Inr (True, g')
         \<and> mark BLACK 1 0 (snd (guessing_order no_shuffle island_1)) = Inr g'
         \<and> cell g' 1 0 = BLACK)
   \<and> guesses (fst (guessing_order no_shuffle domino_2)) = [] @ ((1, 0), BLACK) # [((1, 0), WHITE)]
   \<and> guess 9 (snd (guessing_order no_shuffle domino_2)) BLACK 1 0 = Inr CONTRADICTION_FOUND
   \<and> cell domino_2 1 0 = UNKNOWN
   \<and> (\<exists>g'. analyze_hypotheticals 9 no_shuffle domino_2 = Inr (True, g')
         \<and> mark WHITE 1 0 (snd (guessing_order no_shuffle domino_2)) = Inr g'
         \<and> cell g' 1 0 = WHITE)"
proof -
  have o1: "guessing_order no_shuffle island_1
              = (fst (guessing_order no_shuffle island_1), snd (guessing_order no_shuffle island_1))"
    by simp
  have l1: "guesses (fst (guessing_order no_shuffle island_1))
              = [] @ ((1, 0), BLACK) # [((1, 0), WHITE)]" by code_simp
  have p1: "\<forall>((x', y'), c')\<in>set []. \<exists>sr.
              guess 9 (snd (guessing_order no_shuffle island_1)) c' x' y' = Inr sr
              \<and> sr \<noteq> CONTRADICTION_FOUND \<and> sr \<noteq> SOLUTION_FOUND" by simp
  have s1: "guess 9 (snd (guessing_order no_shuffle island_1)) BLACK 1 0 = Inr SOLUTION_FOUND"
    by code_simp
  have u1: "cell island_1 1 0 = UNKNOWN" by code_simp
  have o2: "guessing_order no_shuffle domino_2
              = (fst (guessing_order no_shuffle domino_2), snd (guessing_order no_shuffle domino_2))"
    by simp
  have l2: "guesses (fst (guessing_order no_shuffle domino_2))
              = [] @ ((1, 0), BLACK) # [((1, 0), WHITE)]" by code_simp
  have p2: "\<forall>((x', y'), c')\<in>set []. \<exists>sr.
              guess 9 (snd (guessing_order no_shuffle domino_2)) c' x' y' = Inr sr
              \<and> sr \<noteq> CONTRADICTION_FOUND \<and> sr \<noteq> SOLUTION_FOUND" by simp
  have s2: "guess 9 (snd (guessing_order no_shuffle domino_2)) BLACK 1 0 = Inr CONTRADICTION_FOUND"
    by code_simp
  have u2: "cell domino_2 1 0 = UNKNOWN" by code_simp
  have op: "opposite BLACK = WHITE" by (simp add: opposite_def)
  from hypothetical_search_decides [OF o1 l1 p1 s1] hypothetical_search_decides [OF o2 l2 p2 s2]
       l1 s1 u1 l2 s2 u2 op
  show ?thesis by simp
qed

subsection \<open>Errors of the constructor\<close>

lemma bad_character_Cons:
  "bad_character (c # cs) \<longleftrightarrow>
     (\<not> is_digit c \<and> c \<noteq> CHR '' '' \<and> c \<noteq> CHR 0x0A) \<or> bad_character cs"
  by (auto simp: bad_character_def)

lemma bad_character_append:
  "bad_character (xs @ ys) \<longleftrightarrow> bad_character xs \<or> bad_character ys"
  by (auto simp: bad_character_def)

lemma bad_character_dropWhile:
  "bad_character (dropWhile is_digit cs) \<longleftrightarrow> bad_character cs"
proof -
  have "\<not> bad_character (takeWhile is_digit cs)"
    by (auto simp: bad_character_def dest: set_takeWhileD)
  with bad_character_append [of "takeWhile is_digit cs" "dropWhile is_digit cs"]
  show ?thesis by simp
qed

lemma parse_numbers:
  "(case parse s of
      Inl e \<Rightarrow> (e = BAD_CHARACTER \<or> e = STOI_OUT_OF_RANGE) \<and> (bad_character s \<or> number_too_big s)
    | Inr v \<Rightarrow> v = numbers_and_spaces s \<and> \<not> bad_character s \<and> \<not> number_too_big s)"
proof (induction s rule: parse.induct)
  case 1
  then show ?case by (simp add: bad_character_def number_too_big_def)
next
  case (2 c cs)
  show ?case
  proof (cases "is_digit c")
    case True
    show ?thesis
    proof (cases "stoi (takeWhile is_digit (c # cs))")
      case (Inl e)
      with True show ?thesis
        by (auto simp: stoi_def number_too_big_def split: if_splits)
    next
      case (Inr n)
      with True have n: "n = digits_value (takeWhile is_digit (c # cs))" "n \<le> 2147483647"
        by (auto simp: stoi_def split: if_splits)
      from 2(1) [OF True Inr] True Inr n show ?thesis
        by (auto simp: number_too_big_def bad_character_Cons bad_character_dropWhile
            split: sum.splits)
    qed
  next
    case False
    note nd = False
    show ?thesis
    proof (cases "c = CHR '' ''")
      case True
      from 2(2) [OF nd True] nd True show ?thesis
        by (auto simp: number_too_big_def bad_character_Cons split: sum.splits)
    next
      case False
      note ns = False
      show ?thesis
      proof (cases "c = CHR 0x0A")
        case True
        from 2(3) [OF nd ns True] nd ns True show ?thesis
          by (auto simp: number_too_big_def bad_character_Cons split: sum.splits)
      next
        case False
        with nd ns show ?thesis by (simp add: bad_character_Cons)
      qed
    qed
  qed
qed

lemma add_region_dims:
  assumes "add_region g x y = Inr g'"
  shows "m_width g' = m_width g \<and> m_height g' = m_height g"
  using assms by (auto simp: add_region_def split: sum.splits)

lemma strict_sorted_product:
  fixes xs ys :: "int list"
  assumes "sorted_wrt (<) xs" and "sorted_wrt (<) ys"
  shows "sorted_wrt (<) (concat (map (\<lambda>x. map (\<lambda>y. (x, y)) ys) xs))"
  using assms(1)
proof (induction xs)
  case Nil
  then show ?case by simp
next
  case (Cons x xs)
  have "sorted_wrt (<) (map (\<lambda>y. (x, y)) ys)"
    using assms(2) by (simp add: sorted_wrt_map)
  with Cons show ?case by (auto simp: sorted_wrt_append)
qed

lemma cells_xy_strict_sorted: "sorted_wrt (<) (cells_xy w h)"
  unfolding cells_xy_def
  by (rule strict_sorted_product) (simp_all add: strict_sorted_iff)

lemma cells_xy_above_before:
  assumes "cells_xy w h = p1 @ (x, y) # p2" and "0 \<le> x" and "x < w" and "1 \<le> y" and "y - 1 < h"
  shows "(x, y - 1) \<in> set p1"
proof -
  have "(x, y - 1) \<in> set (cells_xy w h)" using assms(2-5) by (simp add: set_cells_xy)
  then have "(x, y - 1) \<in> set p1 \<or> (x, y - 1) = (x, y) \<or> (x, y - 1) \<in> set p2"
    using assms(1) by auto
  moreover have "(x, y - 1) \<noteq> (x, y)" by simp
  moreover have "(x, y - 1) \<notin> set p2"
  proof
    assume "(x, y - 1) \<in> set p2"
    moreover from cells_xy_strict_sorted [of w h] assms(1)
    have "\<forall>q\<in>set p2. (x, y) < q" by (auto simp: sorted_wrt_append)
    ultimately have "(x, y) < (x, y - 1)" by blast
    then show False by simp
  qed
  ultimately show ?thesis by blast
qed

lemma ctor_loop_adjacent:
  assumes "\<forall>a b. cell g a b =
             (if (a, b) \<in> D \<and> v ! nat (a + b * w) > 0 then v ! nat (a + b * w) else UNKNOWN)"
    and "m_width g = w" and "m_height g = h"
    and "\<forall>p1 x y p2. ps = p1 @ (x, y) # p2 \<and> 0 \<le> x \<and> x < w \<and> 1 \<le> y \<and> y - 1 < h
           \<longrightarrow> (x, y - 1) \<in> D \<union> set p1"
  shows "isl (ctor_loop v ps g) \<longleftrightarrow>
           (\<exists>(x, y)\<in>set ps. 0 \<le> x \<and> x < w \<and> 1 \<le> y \<and> y - 1 < h
               \<and> v ! nat (x + y * w) > 0 \<and> v ! nat (x + (y - 1) * w) > 0)"
  using assms
proof (induction ps arbitrary: g D)
  case Nil
  then show ?case by simp
next
  case (Cons p ps)
  obtain x y where p: "p = (x, y)" by (cases p)
  let ?n = "v ! nat (x + y * w)"
  let ?adj = "\<lambda>(x, y). 0 \<le> x \<and> x < w \<and> 1 \<le> y \<and> y - 1 < h
               \<and> v ! nat (x + y * w) > 0 \<and> v ! nat (x + (y - 1) * w) > 0"
  have ord': "\<forall>p1 x' y' p2. ps = p1 @ (x', y') # p2 \<and> 0 \<le> x' \<and> x' < w \<and> 1 \<le> y' \<and> y' - 1 < h
           \<longrightarrow> (x', y' - 1) \<in> insert (x, y) D \<union> set p1"
  proof (intro allI impI)
    fix p1 x' y' p2
    assume a: "ps = p1 @ (x', y') # p2 \<and> 0 \<le> x' \<and> x' < w \<and> 1 \<le> y' \<and> y' - 1 < h"
    then have "p # ps = (p # p1) @ (x', y') # p2" by simp
    with Cons.prems(4) a have "(x', y' - 1) \<in> D \<union> set (p # p1)" by blast
    with p show "(x', y' - 1) \<in> insert (x, y) D \<union> set p1" by auto
  qed
  have above: "0 \<le> x \<and> x < w \<and> 1 \<le> y \<and> y - 1 < h \<longrightarrow> (x, y - 1) \<in> D"
    using Cons.prems(4) p by (metis append_Nil Un_iff empty_iff empty_set)
  have check: "valid g x (y - 1) \<and> cell g x (y - 1) > 0 \<longleftrightarrow>
                 0 \<le> x \<and> x < w \<and> 1 \<le> y \<and> y - 1 < h \<and> v ! nat (x + (y - 1) * w) > 0"
    using Cons.prems(1,2,3) above by (auto simp: valid_def UNKNOWN_def)
  show ?case
  proof (cases "?n > 0")
    case False
    have inv': "\<forall>a b. cell g a b =
             (if (a, b) \<in> insert (x, y) D \<and> v ! nat (a + b * w) > 0
              then v ! nat (a + b * w) else UNKNOWN)"
      using Cons.prems(1) False by auto
    from Cons.IH [OF inv' Cons.prems(2,3) ord'] False p Cons.prems(2) show ?thesis
      by (simp add: Let_def)
  next
    case True
    show ?thesis
    proof (cases "valid g x (y - 1) \<and> cell g x (y - 1) > 0")
      case c: True
      with True p Cons.prems(2) have "isl (ctor_loop v (p # ps) g)" by (simp add: Let_def)
      moreover from c check True have "?adj (x, y)" by simp
      ultimately show ?thesis using p by auto
    next
      case c: False
      let ?g1 = "g\<lparr>m_cells := (m_cells g)((x, y) := (?n, region g x y))\<rparr>"
      have "cell ?g1 x y \<noteq> UNKNOWN" using True by (simp add: cell_def UNKNOWN_def)
      then obtain g' where a: "add_region ?g1 x y = Inr g'" using add_region_total by blast
      let ?g2 = "g'\<lparr>m_total_black := wrap_int (m_total_black g' - ?n)\<rparr>"
      have step: "ctor_loop v (p # ps) g = ctor_loop v ps ?g2"
        using True c p a Cons.prems(2) by (auto simp: Let_def)
      have cell2: "cell ?g2 a b = (if (a, b) = (x, y) then ?n else cell g a b)" for a b
        using add_region_cell [OF a, of a b] by (simp add: cell_def)
      have inv': "\<forall>a b. cell ?g2 a b =
             (if (a, b) \<in> insert (x, y) D \<and> v ! nat (a + b * w) > 0
              then v ! nat (a + b * w) else UNKNOWN)"
        using Cons.prems(1) True by (auto simp: cell2)
      have dims: "m_width ?g2 = w" "m_height ?g2 = h"
        using add_region_dims [OF a] Cons.prems(2,3) by simp_all
      from c check True have nadj: "\<not> ?adj (x, y)" by simp
      from Cons.IH [OF inv' dims ord']
      have ih: "isl (ctor_loop v ps ?g2) \<longleftrightarrow> (\<exists>q\<in>set ps. ?adj q)" .
      show ?thesis unfolding step using ih nadj p by auto
    qed
  qed
qed

text \<open>
  Claim C9, amended. The constructor raises an error, and returns no grid, exactly when:
  width < 1, or height < 1, or the string contains a character other than a digit, a
  space or a newline, or a number of the string is above the largest \<^verbatim>\<open>int\<close>
  (2147483647; \<^verbatim>\<open>stoi\<close> throws), or the count of numbers and spaces differs from width
  times height, or two positive numbers are vertically adjacent.
\<close>

theorem Grid_ctor_raises:
  "isl (Grid_ctor w h s) \<longleftrightarrow>
     w < 1 \<or> h < 1 \<or> bad_character s \<or> number_too_big s \<or> wrong_count w h s
       \<or> vertically_adjacent w h s"
proof (cases "w < 1 \<or> h < 1")
  case True
  then show ?thesis by (auto simp: Grid_ctor_def)
next
  case False
  note dims = False
  show ?thesis
  proof (cases "parse s")
    case (Inl e)
    with parse_numbers [of s] dims show ?thesis by (auto simp: Grid_ctor_def)
  next
    case (Inr v)
    with parse_numbers [of s] have v: "v = numbers_and_spaces s" and
      ok: "\<not> bad_character s" "\<not> number_too_big s" by auto
    show ?thesis
    proof (cases "int (length v) \<noteq> w * h")
      case True
      with Inr dims v show ?thesis by (auto simp: Grid_ctor_def wrong_count_def)
    next
      case False
      let ?g0 = "\<lparr>m_width = w, m_height = h, m_total_black = wrap_int (w * h),
                       m_cells = (\<lambda>p. (UNKNOWN, None)), m_regions = [],
                       m_sitrep = KEEP_GOING, m_prng = 1729,
                       heap = (\<lambda>i. \<lparr>m_state = UNKNOWN, m_coords = {}, m_unknowns = {}\<rparr>),
                       heap_next = 0\<rparr>"
      have eq: "Grid_ctor w h s = ctor_loop v (cells_xy w h) ?g0"
        using Inr dims False by (simp add: Grid_ctor_def)
      have inv: "\<forall>a b. cell ?g0 a b =
             (if (a, b) \<in> {} \<and> v ! nat (a + b * w) > 0 then v ! nat (a + b * w) else UNKNOWN)"
        by (simp add: cell_def)
      have ord: "\<forall>p1 x y p2. cells_xy w h = p1 @ (x, y) # p2 \<and> 0 \<le> x \<and> x < w \<and> 1 \<le> y \<and> y - 1 < h
           \<longrightarrow> (x, y - 1) \<in> {} \<union> set p1"
        using cells_xy_above_before by auto
      have "isl (ctor_loop v (cells_xy w h) ?g0) \<longleftrightarrow>
           (\<exists>(x, y)\<in>set (cells_xy w h). 0 \<le> x \<and> x < w \<and> 1 \<le> y \<and> y - 1 < h
               \<and> v ! nat (x + y * w) > 0 \<and> v ! nat (x + (y - 1) * w) > 0)"
        by (rule ctor_loop_adjacent [OF inv _ _ ord]) simp_all
      also have "\<dots> \<longleftrightarrow> vertically_adjacent w h s"
        unfolding vertically_adjacent_def list_ex_iff set_cells_xy v by fastforce
      finally show ?thesis using eq False ok dims v by (simp add: wrong_count_def)
    qed
  qed
qed

text \<open>
  The claim as it was stated, without the case of a number that is too big, fails on the
  1 by 1 puzzle \<^verbatim>\<open>"99999999999"\<close>: one number, no other character, nothing above it, and
  the constructor raises the out-of-range error of \<^verbatim>\<open>stoi\<close>.
\<close>

theorem Grid_ctor_raises_counterexample:
  "isl (Grid_ctor 1 1 ''99999999999'')
   \<and> projl (Grid_ctor 1 1 ''99999999999'') = STOI_OUT_OF_RANGE
   \<and> \<not> ((1::int) < 1 \<or> (1::int) < 1 \<or> bad_character ''99999999999''
          \<or> wrong_count 1 1 ''99999999999'' \<or> vertically_adjacent 1 1 ''99999999999'')"
  by code_simp

theorem Grid_ctor_raises_witness:
  "wrong_count 2 2 ''12 3\<newline>\<newline>'' \<and> isl (Grid_ctor 2 2 ''12 3\<newline>\<newline>'')
   \<and> vertically_adjacent 1 2 ''1\<newline>2'' \<and> isl (Grid_ctor 1 2 ''1\<newline>2'')
   \<and> bad_character ''1x'' \<and> isl (Grid_ctor 2 1 ''1x'')
   \<and> number_too_big ''99999999999'' \<and> isl (Grid_ctor 1 1 ''99999999999'')
   \<and> \<not> ((2::int) < 1 \<or> (1::int) < 1 \<or> bad_character ''1 '' \<or> number_too_big ''1 ''
          \<or> wrong_count 2 1 ''1 '' \<or> vertically_adjacent 2 1 ''1 '')
   \<and> \<not> isl (Grid_ctor 2 1 ''1 '')"
proof -
  have 1: "wrong_count 2 2 ''12 3\<newline>\<newline>''" by code_simp
  have 2: "vertically_adjacent 1 2 ''1\<newline>2''" by code_simp
  have 3: "bad_character ''1x''" by code_simp
  have 4: "number_too_big ''99999999999''" by code_simp
  have 5: "\<not> ((2::int) < 1 \<or> (1::int) < 1 \<or> bad_character ''1 '' \<or> number_too_big ''1 ''
          \<or> wrong_count 2 1 ''1 '' \<or> vertically_adjacent 2 1 ''1 '')" by code_simp
  from Grid_ctor_raises [of 2 2 "''12 3\<newline>\<newline>''"] Grid_ctor_raises [of 1 2 "''1\<newline>2''"]
    Grid_ctor_raises [of 2 1 "''1x''"] Grid_ctor_raises [of 1 1 "''99999999999''"]
    Grid_ctor_raises [of 2 1 "''1 ''"] 1 2 3 4 5
  show ?thesis by blast
qed

subsection \<open>The bound on the black cells\<close>

lemma Inr_projr1: "\<not> isl res \<Longrightarrow> res = Inr (projr res)"
  by (cases res) auto

lemma Inr_projr2: "\<not> isl res \<Longrightarrow> res = Inr (fst (projr res), snd (projr res))"
  by (cases res) auto

lemma detect_regions_black:
  assumes "detect_regions fuel g is black_cells white_cells cache
             = Inr (False, black_cells', white_cells', cache')"
  shows "black_cells' = black_cells
           + (\<Sum>i\<leftarrow>is. if black (heap g i) then size_R (heap g i) else 0)"
  using assms
proof (induction "is" arbitrary: black_cells white_cells cache)
  case Nil
  then show ?case by simp
next
  case (Cons i "is")
  let ?r = "heap g i"
  let ?b = "if black ?r then black_cells + size_R ?r else black_cells"
  let ?w = "if black ?r then white_cells else white_cells + size_R ?r"
  from Cons.prems obtain c1 where
    "detect_regions fuel g is ?b ?w c1 = Inr (False, black_cells', white_cells', cache')"
    by (auto simp: Let_def split: if_splits sum.splits)
  from Cons.IH [OF this] show ?case by simp
qed

lemma detect_contradictions_black:
  assumes "detect_contradictions fuel g cache = Inr (False, g', cache')"
  shows "black_cells_sum g \<le> m_total_black g"
proof -
  from assms obtain bc wc c1 where
    d: "detect_regions fuel g (m_regions g) 0 0 cache = Inr (False, bc, wc, c1)"
    and le: "\<not> bc > m_total_black g"
    by (auto simp: detect_contradictions_def uh_oh_def split: if_splits sum.splits)
  from detect_regions_black [OF d] le show ?thesis by (simp add: black_cells_sum_def)
qed

lemma wrap_int_diff: "wrap_int (wrap_int a - b) = wrap_int (a - b)"
proof -
  have "(wrap_int a - b + 2147483648) mod 4294967296
          = ((a + 2147483648) mod 4294967296 - b) mod 4294967296"
    by (simp add: wrap_int_def)
  also have "\<dots> = (a + 2147483648 - b) mod 4294967296"
    by (rule mod_diff_left_eq)
  also have "\<dots> = (a - b + 2147483648) mod 4294967296"
    by (simp add: algebra_simps)
  finally show ?thesis by (simp add: wrap_int_def)
qed

lemma wrap_int_id: "- 2147483648 \<le> n \<Longrightarrow> n \<le> 2147483647 \<Longrightarrow> wrap_int n = n"
  by (simp add: wrap_int_def)

lemma ctor_loop_total_black:
  assumes "ctor_loop v ps g = Inr g'" and "m_width g = w"
    and "\<forall>a b. cell g a b =
             (if (a, b) \<in> D \<and> v ! nat (a + b * w) > 0 then v ! nat (a + b * w) else UNKNOWN)"
    and "m_total_black g = wrap_int t"
  shows "m_width g' = w \<and> m_height g' = m_height g
       \<and> m_total_black g' = wrap_int (t
           - (\<Sum>(x, y)\<leftarrow>ps. if v ! nat (x + y * w) > 0 then v ! nat (x + y * w) else 0))
       \<and> (\<forall>a b. cell g' a b =
             (if (a, b) \<in> D \<union> set ps \<and> v ! nat (a + b * w) > 0
              then v ! nat (a + b * w) else UNKNOWN))"
  using assms
proof (induction ps arbitrary: g D t)
  case Nil
  then show ?case by simp
next
  case (Cons p ps)
  obtain x y where p: "p = (x, y)" by (cases p)
  let ?n = "v ! nat (x + y * w)"
  show ?case
  proof (cases "?n > 0")
    case False
    with Cons.prems(1,2) p have l: "ctor_loop v ps g = Inr g'" by (simp add: Let_def)
    have inv': "\<forall>a b. cell g a b =
             (if (a, b) \<in> insert (x, y) D \<and> v ! nat (a + b * w) > 0
              then v ! nat (a + b * w) else UNKNOWN)"
      using Cons.prems(3) False by auto
    from Cons.IH [OF l Cons.prems(2) inv' Cons.prems(4)] False p show ?thesis by simp
  next
    case True
    let ?g1 = "g\<lparr>m_cells := (m_cells g)((x, y) := (?n, region g x y))\<rparr>"
    from Cons.prems(1,2) True p obtain ga where a: "add_region ?g1 x y = Inr ga"
      and l: "ctor_loop v ps (ga\<lparr>m_total_black := wrap_int (m_total_black ga - ?n)\<rparr>) = Inr g'"
      by (auto simp: Let_def split: if_splits sum.splits)
    let ?g2 = "ga\<lparr>m_total_black := wrap_int (m_total_black ga - ?n)\<rparr>"
    have dims: "m_width ?g2 = w" "m_height ?g2 = m_height g"
      using add_region_dims [OF a] Cons.prems(2) by simp_all
    have "m_total_black ga = m_total_black g"
      using a by (auto simp: add_region_def split: sum.splits)
    then have tb: "m_total_black ?g2 = wrap_int (t - ?n)"
      using Cons.prems(4) by (simp add: wrap_int_diff)
    have cell2: "cell ?g2 a b = (if (a, b) = (x, y) then ?n else cell g a b)" for a b
      using add_region_cell [OF a, of a b] by (simp add: cell_def)
    have inv': "\<forall>a b. cell ?g2 a b =
             (if (a, b) \<in> insert (x, y) D \<and> v ! nat (a + b * w) > 0
              then v ! nat (a + b * w) else UNKNOWN)"
      using Cons.prems(3) True by (auto simp: cell2)
    have "t - ?n - (\<Sum>(x, y)\<leftarrow>ps. if v ! nat (x + y * w) > 0 then v ! nat (x + y * w) else 0)
            = t - (\<Sum>(x, y)\<leftarrow>p # ps. if v ! nat (x + y * w) > 0 then v ! nat (x + y * w) else 0)"
      using True p by simp
    with Cons.IH [OF l dims(1) inv' tb] dims(2) p show ?thesis by simp
  qed
qed

lemma Grid_ctor_total_black:
  assumes "Grid_ctor w h s = Inr g"
  shows "m_width g = w \<and> m_height g = h \<and> m_total_black g = wrap_int (w * h - clue_sum g)"
proof -
  let ?g0 = "\<lparr>m_width = w, m_height = h, m_total_black = wrap_int (w * h),
                       m_cells = (\<lambda>p. (UNKNOWN, None)), m_regions = [],
                       m_sitrep = KEEP_GOING, m_prng = 1729,
                       heap = (\<lambda>i. \<lparr>m_state = UNKNOWN, m_coords = {}, m_unknowns = {}\<rparr>),
                       heap_next = 0\<rparr>"
  from assms obtain v where l: "ctor_loop v (cells_xy w h) ?g0 = Inr g"
    by (auto simp: Grid_ctor_def split: if_splits sum.splits)
  have w0: "m_width ?g0 = w" by simp
  have t0: "m_total_black ?g0 = wrap_int (w * h)" by simp
  have inv: "\<forall>a b. cell ?g0 a b =
             (if (a, b) \<in> {} \<and> v ! nat (a + b * w) > 0 then v ! nat (a + b * w) else UNKNOWN)"
    by (simp add: cell_def)
  from ctor_loop_total_black [OF l w0 inv t0]
  have dims: "m_width g = w" "m_height g = h"
    and tb: "m_total_black g = wrap_int (w * h
           - (\<Sum>(x, y)\<leftarrow>cells_xy w h. if v ! nat (x + y * w) > 0 then v ! nat (x + y * w) else 0))"
    and cells: "\<And>a b. cell g a b =
             (if (a, b) \<in> set (cells_xy w h) \<and> v ! nat (a + b * w) > 0
              then v ! nat (a + b * w) else UNKNOWN)"
    by simp_all
  have "(\<Sum>(x, y)\<leftarrow>cells_xy w h. if cell g x y > 0 then cell g x y else 0)
          = (\<Sum>(x, y)\<leftarrow>cells_xy w h. if v ! nat (x + y * w) > 0 then v ! nat (x + y * w) else 0)"
    by (intro arg_cong [where f = sum_list] map_cong refl) (auto simp: cells UNKNOWN_def)
  with tb dims show ?thesis by (simp only: clue_sum_def)
qed

lemma fuse_regions_frame:
  "m_width (fuse_regions g p1 p2) = m_width g
   \<and> m_height (fuse_regions g p1 p2) = m_height g
   \<and> m_total_black (fuse_regions g p1 p2) = m_total_black g
   \<and> heap_next (fuse_regions g p1 p2) = heap_next g"
  by (simp add: fuse_regions_def Let_def split: option.splits prod.splits)

lemma fold_fuse_frame:
  "m_width (fold (\<lambda>(a, b) g'. fuse_regions g' (region g' x y) (region g' a b)) ps g) = m_width g
   \<and> m_height (fold (\<lambda>(a, b) g'. fuse_regions g' (region g' x y) (region g' a b)) ps g) = m_height g
   \<and> m_total_black (fold (\<lambda>(a, b) g'. fuse_regions g' (region g' x y) (region g' a b)) ps g)
       = m_total_black g
   \<and> heap_next (fold (\<lambda>(a, b) g'. fuse_regions g' (region g' x y) (region g' a b)) ps g)
       = heap_next g"
  by (induction ps arbitrary: g) (auto simp: fuse_regions_frame)

lemma add_region_frame:
  assumes "add_region g x y = Inr g'"
  shows "m_width g' = m_width g \<and> m_height g' = m_height g
       \<and> m_total_black g' = m_total_black g \<and> heap_next g' = Suc (heap_next g)"
  using assms by (auto simp: add_region_def split: sum.splits)

lemma mark_frame:
  assumes "mark s x y g = Inr g'"
  shows "m_width g' = m_width g \<and> m_height g' = m_height g
       \<and> m_total_black g' = m_total_black g"
proof (cases "cell g x y \<noteq> UNKNOWN")
  case True
  with assms show ?thesis by (auto simp: mark_def split: if_splits)
next
  case False
  let ?g1 = "g\<lparr>m_cells := (m_cells g)((x, y) := (s, region g x y))\<rparr>"
  let ?g2 = "?g1\<lparr>heap := fold (\<lambda>i h. h(i := unk_erase (h i) x y)) (m_regions ?g1) (heap ?g1)\<rparr>"
  from assms False obtain g3 where a: "add_region ?g2 x y = Inr g3"
    and g': "g' = fold (\<lambda>(a, b) g'. fuse_regions g' (region g' x y) (region g' a b))
                      (for_valid_neighbors g3 x y) g3"
    by (auto simp: mark_def Let_def split: if_splits sum.splits)
  from add_region_frame [OF a] show ?thesis unfolding g' by (simp add: fold_fuse_frame)
qed

lemma mark_colour:
  assumes "mark s x y g = Inr g'"
  shows "s = WHITE \<or> s = BLACK"
  using assms by (auto simp: mark_def split: if_splits)

lemma mark_clue_sum:
  assumes "mark s x y g = Inr g'"
  shows "clue_sum g' = clue_sum g"
proof -
  have "(if cell g' a b > 0 then cell g' a b else 0) = (if cell g a b > 0 then cell g a b else 0)"
    for a b
    using mark_cell [OF assms, of a b] mark_colour [OF assms]
    by (auto simp: WHITE_def BLACK_def UNKNOWN_def)
  then show ?thesis using mark_frame [OF assms] by (simp add: clue_sum_def)
qed

lemma reached_total_black:
  assumes "reached g"
  shows "m_total_black g = wrap_int (m_width g * m_height g - clue_sum g)"
  using assms
proof (induction rule: reached.induct)
  case (constructed w h s g)
  then show ?case using Grid_ctor_total_black by simp
next
  case (marked g s x y g')
  then show ?case using mark_frame [of s x y g g'] mark_clue_sum [of s x y g g'] by simp
qed

subsection \<open>Running a rule twice\<close>

lemma black_not_numbered: "black r \<Longrightarrow> \<not> numbered r"
  by (simp add: black_def numbered_def BLACK_def)

lemma fold_unk_erase:
  "fold (\<lambda>i h. h(i := unk_erase (h i) x y)) is h j
     = (if j \<in> set is then unk_erase (h j) x y else h j)"
proof (induction "is" arbitrary: h)
  case Nil
  then show ?case by simp
next
  case (Cons i "is")
  let ?h = "h(i := unk_erase (h i) x y)"
  have "fold (\<lambda>i h. h(i := unk_erase (h i) x y)) (i # is) h j
          = fold (\<lambda>i h. h(i := unk_erase (h i) x y)) is ?h j" by simp
  also have "\<dots> = (if j \<in> set is then unk_erase (?h j) x y else ?h j)" by (rule Cons.IH)
  also have "\<dots> = (if j \<in> set (i # is) then unk_erase (h j) x y else h j)"
    by (auto simp: unk_erase_def)
  finally show ?case .
qed

text \<open>One fusion whose first region is black.\<close>

lemma fuse_regions_black:
  assumes "p1 = Some a" and "black (heap g a)"
  shows "(\<forall>i. \<not> black (heap g i) \<longrightarrow> heap (fuse_regions g p1 p2) i = heap g i)
       \<and> (\<forall>i. black (heap g i) \<longrightarrow> black (heap (fuse_regions g p1 p2) i))
       \<and> (\<forall>i. \<not> black (heap g i) \<longrightarrow>
              (i \<in> set (m_regions (fuse_regions g p1 p2)) \<longleftrightarrow> i \<in> set (m_regions g)))
       \<and> set (m_regions (fuse_regions g p1 p2)) \<subseteq> set (m_regions g)
       \<and> (\<forall>c d. (\<exists>a'. region g c d = Some a' \<and> black (heap g a')) \<longrightarrow>
              (\<exists>a'. region (fuse_regions g p1 p2) c d = Some a'
                    \<and> black (heap (fuse_regions g p1 p2) a')))"
proof (cases p2)
  case None
  with assms show ?thesis by (simp add: fuse_regions_def)
next
  case (Some b)
  show ?thesis
  proof (cases "a = b \<or> black (heap g a) \<noteq> black (heap g b)")
    case True
    with assms Some black_not_numbered [OF assms(2)] show ?thesis
      by (auto simp: fuse_regions_def)
  next
    case False
    with assms(2) have bb: "black (heap g b)" and ab: "a \<noteq> b" by auto
    from assms(2) bb have nn: "\<not> numbered (heap g a)" "\<not> numbered (heap g b)"
      by (simp_all add: black_not_numbered)
    show ?thesis
    proof (cases "size_R (heap g b) > size_R (heap g a)")
      case True
      with assms Some ab bb nn show ?thesis
        by (auto simp: fuse_regions_def Let_def region_def black_def repoint_apply)
    next
      case False
      with assms Some ab bb nn show ?thesis
        by (auto simp: fuse_regions_def Let_def region_def black_def repoint_apply)
    qed
  qed
qed

lemma fold_fuse_black:
  assumes "\<exists>a. region g x y = Some a \<and> black (heap g a)"
  shows "(\<forall>i. \<not> black (heap g i) \<longrightarrow>
            heap (fold (\<lambda>(a, b) g'. fuse_regions g' (region g' x y) (region g' a b)) ps g) i
              = heap g i)
       \<and> (\<forall>i. black (heap g i) \<longrightarrow>
            black (heap (fold (\<lambda>(a, b) g'. fuse_regions g' (region g' x y) (region g' a b)) ps g) i))
       \<and> (\<forall>i. \<not> black (heap g i) \<longrightarrow>
            (i \<in> set (m_regions (fold (\<lambda>(a, b) g'. fuse_regions g' (region g' x y) (region g' a b)) ps g))
               \<longleftrightarrow> i \<in> set (m_regions g)))
       \<and> set (m_regions (fold (\<lambda>(a, b) g'. fuse_regions g' (region g' x y) (region g' a b)) ps g))
            \<subseteq> set (m_regions g)"
  using assms
proof (induction ps arbitrary: g)
  case Nil
  then show ?case by simp
next
  case (Cons p ps)
  obtain c d where p: "p = (c, d)" by (cases p)
  from Cons.prems obtain a where a: "region g x y = Some a" "black (heap g a)" by blast
  let ?g1 = "fuse_regions g (region g x y) (region g c d)"
  note f = fuse_regions_black [OF a, of "region g c d"]
  from f Cons.prems have 1: "\<exists>a. region ?g1 x y = Some a \<and> black (heap ?g1 a)" by blast
  note ih = Cons.IH [OF 1]
  have nb: "\<not> black (heap ?g1 i)" if "\<not> black (heap g i)" for i
    using f that by simp
  show ?case
    unfolding p fold_simps case_prod_conv
    apply (intro conjI allI impI)
    subgoal for i using ih f nb [of i] by simp
    subgoal for i using ih f by blast
    subgoal for i using ih f nb [of i] by simp
    subgoal using ih f by blast
    done
qed

lemma mark_black_numbered:
  assumes "mark BLACK x y g = Inr g'" and "cell g x y = UNKNOWN" and "heap_fresh g"
  shows "(\<forall>i. i \<in> set (m_regions g') \<and> numbered (heap g' i)
               \<longleftrightarrow> i \<in> set (m_regions g) \<and> numbered (heap g i))
       \<and> (\<forall>i\<in>set (m_regions g). numbered (heap g i) \<longrightarrow>
              heap g' i = unk_erase (heap g i) x y)
       \<and> heap_fresh g'"
proof -
  let ?n = "heap_next g"
  let ?g1 = "g\<lparr>m_cells := (m_cells g)((x, y) := (BLACK, region g x y))\<rparr>"
  let ?g2 = "?g1\<lparr>heap := fold (\<lambda>i h. h(i := unk_erase (h i) x y)) (m_regions ?g1) (heap ?g1)\<rparr>"
  let ?F = "\<lambda>g3. fold (\<lambda>(a, b) g'. fuse_regions g' (region g' x y) (region g' a b))
                      (for_valid_neighbors g3 x y) g3"
  from assms(1,2) obtain g3 where a: "add_region ?g2 x y = Inr g3" and g': "g' = ?F g3"
    by (auto simp: mark_def Let_def split: if_splits sum.splits)
  have h2: "heap ?g2 j = (if j \<in> set (m_regions g) then unk_erase (heap g j) x y else heap g j)"
    for j by (simp add: fold_unk_erase)
  from a have g3: "m_regions g3 = insort_insert ?n (m_regions g)"
    "heap g3 = (heap ?g2)(?n := \<lparr>m_state = BLACK, m_coords = {(x, y)},
                  m_unknowns = insert_valid_unknown_neighbors ?g2 {} x y\<rparr>)"
    "region g3 x y = Some ?n" "heap_next g3 = Suc ?n"
    by (auto simp: add_region_def Region_ctor_def cell_def region_def BLACK_def UNKNOWN_def
        split: if_splits)
  have bn: "black (heap g3 ?n)" by (simp add: g3 black_def)
  then have start: "\<exists>a. region g3 x y = Some a \<and> black (heap g3 a)" using g3(3) by blast
  note ff = fold_fuse_black [OF start, of "for_valid_neighbors g3 x y", folded g']
  have fresh: "i \<noteq> ?n" if "i \<in> set (m_regions g)" for i
    using assms(3) that by (auto simp: heap_fresh_def)
  have set3: "set (m_regions g3) = insert ?n (set (m_regions g))"
    by (simp add: g3 set_insort_insert)
  have num3: "numbered (heap g3 i) \<longleftrightarrow> i \<noteq> ?n \<and> numbered (heap ?g2 i)" for i
    using bn black_not_numbered by (auto simp: g3)
  have num2: "numbered (heap ?g2 i) \<longleftrightarrow> numbered (heap g i)" for i
    unfolding h2 by (simp add: unk_erase_def numbered_def)
  have keep: "heap g' i = heap g3 i \<and> (i \<in> set (m_regions g') \<longleftrightarrow> i \<in> set (m_regions g3))"
    if "\<not> black (heap g3 i)" for i
    using ff that by blast
  have 1: "i \<in> set (m_regions g') \<and> numbered (heap g' i)
               \<longleftrightarrow> i \<in> set (m_regions g) \<and> numbered (heap g i)" for i
  proof
    assume l: "i \<in> set (m_regions g') \<and> numbered (heap g' i)"
    have nb: "\<not> black (heap g3 i)"
    proof
      assume "black (heap g3 i)"
      with ff have "black (heap g' i)" by blast
      with l black_not_numbered show False by blast
    qed
    from keep [OF nb] l have "i \<in> set (m_regions g3)" "numbered (heap g3 i)" by simp_all
    with num3 num2 set3 show "i \<in> set (m_regions g) \<and> numbered (heap g i)" by auto
  next
    assume r: "i \<in> set (m_regions g) \<and> numbered (heap g i)"
    with fresh num3 num2 have n3: "numbered (heap g3 i)" by simp
    then have nb: "\<not> black (heap g3 i)" using black_not_numbered by blast
    from keep [OF nb] n3 r set3 show "i \<in> set (m_regions g') \<and> numbered (heap g' i)" by simp
  qed
  have 2: "heap g' i = unk_erase (heap g i) x y"
    if "i \<in> set (m_regions g)" "numbered (heap g i)" for i
  proof -
    from that fresh num3 num2 have n3: "numbered (heap g3 i)" by simp
    then have nb: "\<not> black (heap g3 i)" using black_not_numbered by blast
    from keep [OF nb] have "heap g' i = heap g3 i" by simp
    also have "\<dots> = heap ?g2 i" using fresh [OF that(1)] by (simp add: g3)
    also have "\<dots> = unk_erase (heap g i) x y" using that(1) by (simp add: fold_unk_erase)
    finally show ?thesis .
  qed
  have "heap_next g' = Suc ?n" unfolding g' using g3(4) by (simp add: fold_fuse_frame)
  moreover have "set (m_regions g') \<subseteq> insert ?n (set (m_regions g))"
    using ff set3 by blast
  ultimately have 3: "heap_fresh g'" using assms(3)
    unfolding heap_fresh_def by (metis insert_iff less_Suc_eq subsetD)
  from 1 2 3 show ?thesis by blast
qed

lemma mark_all_black_numbered:
  assumes "mark_all BLACK ps g = Inr g'" and "distinct ps"
    and "\<forall>(x, y)\<in>set ps. cell g x y = UNKNOWN" and "heap_fresh g"
  shows "(\<forall>i. i \<in> set (m_regions g') \<and> numbered (heap g' i)
               \<longleftrightarrow> i \<in> set (m_regions g) \<and> numbered (heap g i))
       \<and> (\<forall>i\<in>set (m_regions g). numbered (heap g i) \<longrightarrow>
              heap g' i = (heap g i)\<lparr>m_unknowns := m_unknowns (heap g i) - set ps\<rparr>)
       \<and> heap_fresh g'"
  using assms
proof (induction ps arbitrary: g)
  case Nil
  then show ?case by simp
next
  case (Cons p ps)
  obtain x y where p: "p = (x, y)" by (cases p)
  from Cons.prems(1) p obtain g1 where m: "mark BLACK x y g = Inr g1"
    and r: "mark_all BLACK ps g1 = Inr g'" by (auto split: sum.splits)
  from Cons.prems(3) p have u: "cell g x y = UNKNOWN" by simp
  note s = mark_black_numbered [OF m u Cons.prems(4)]
  have d: "distinct ps" using Cons.prems(2) by simp
  have u1: "\<forall>(a, b)\<in>set ps. cell g1 a b = UNKNOWN"
    using Cons.prems(2,3) p mark_cell [OF m] by auto
  from s have f1: "heap_fresh g1" by simp
  note ih = Cons.IH [OF r d u1 f1]
  have 1: "i \<in> set (m_regions g') \<and> numbered (heap g' i)
               \<longleftrightarrow> i \<in> set (m_regions g) \<and> numbered (heap g i)" for i
    using ih s by blast
  have 2: "heap g' i = (heap g i)\<lparr>m_unknowns := m_unknowns (heap g i) - set (p # ps)\<rparr>"
    if "i \<in> set (m_regions g)" "numbered (heap g i)" for i
  proof -
    from s that have a: "i \<in> set (m_regions g1)" "numbered (heap g1 i)"
      "heap g1 i = unk_erase (heap g i) x y" by blast+
    with ih have "heap g' i = (heap g1 i)\<lparr>m_unknowns := m_unknowns (heap g1 i) - set ps\<rparr>"
      by blast
    moreover have "m_unknowns (heap g i) - {(x, y)} - set ps
                     = m_unknowns (heap g i) - set (p # ps)" using p by auto
    ultimately show ?thesis using a(3) by (simp add: unk_erase_def)
  qed
  from 1 2 ih show ?case by blast
qed

lemma complete_islands_fold:
  "fold (\<lambda>i (mark_as_black, mark_as_white).
             let r = heap g i in
             if numbered r \<and> size_R r = number r
             then (mark_as_black \<union> m_unknowns r, mark_as_white)
             else (mark_as_black, mark_as_white)) is (A, B)
     = (A \<union> (\<Union>i\<in>{i \<in> set is. numbered (heap g i) \<and> size_R (heap g i) = number (heap g i)}.
               m_unknowns (heap g i)), B)"
  by (induction "is" arbitrary: A) (auto simp: Let_def)

lemma complete_islands_marks_eq:
  "complete_islands_marks g
     = (\<Union>i\<in>{i \<in> set (m_regions g). numbered (heap g i) \<and> size_R (heap g i) = number (heap g i)}.
          m_unknowns (heap g i), {})"
  by (simp add: complete_islands_marks_def complete_islands_fold)

lemma process_nothing: "process g {} {} = Inr (False, g)"
  by (simp add: process_def)

lemma process_black_only:
  assumes "process g mb {} = Inr (b, g')" and "mb \<noteq> {}"
  shows "mark_all BLACK (sorted_list_of_set mb) g = Inr g'"
  using assms by (auto simp: process_def split: sum.splits)

text \<open>
  Every region of a grid that the constructor and \<^verbatim>\<open>mark\<close> produce records finitely many
  liberties.
\<close>

lemma finite_insert_valid_unknown_neighbors:
  "finite s \<Longrightarrow> finite (insert_valid_unknown_neighbors g s x y)"
proof -
  have "finite s \<Longrightarrow> finite (fold (\<lambda>(a, b) s'. if cell g a b = UNKNOWN then insert (a, b) s' else s') ps s)"
    for ps
    by (induction ps arbitrary: s) (auto split: prod.splits)
  then show "finite s \<Longrightarrow> finite (insert_valid_unknown_neighbors g s x y)"
    by (simp add: insert_valid_unknown_neighbors_def)
qed

lemma finite_unknowns_add_region:
  assumes "\<forall>i. finite (m_unknowns (heap g i))" and "add_region g x y = Inr g'"
  shows "\<forall>i. finite (m_unknowns (heap g' i))"
  using assms finite_insert_valid_unknown_neighbors [of "{}" g x y]
  by (auto simp: add_region_def Region_ctor_def split: if_splits)

lemma finite_unknowns_fuse_regions:
  assumes "\<forall>i. finite (m_unknowns (heap g i))"
  shows "\<forall>i. finite (m_unknowns (heap (fuse_regions g p1 p2) i))"
  using assms by (auto simp: fuse_regions_def Let_def split: option.splits)

lemma finite_unknowns_fold_fuse:
  assumes "\<forall>i. finite (m_unknowns (heap g i))"
  shows "\<forall>i. finite (m_unknowns (heap (fold (\<lambda>(a, b) g'. fuse_regions g' (region g' x y) (region g' a b)) ps g) i))"
  using assms
proof (induction ps arbitrary: g)
  case Nil
  then show ?case by simp
next
  case (Cons p ps)
  obtain a b where p: "p = (a, b)" by (cases p)
  from Cons.prems have "\<forall>i. finite (m_unknowns (heap (fuse_regions g (region g x y) (region g a b)) i))"
    by (rule finite_unknowns_fuse_regions)
  from Cons.IH [OF this] p show ?case by simp
qed

lemma finite_unknowns_mark:
  assumes "\<forall>i. finite (m_unknowns (heap g i))" and "mark s x y g = Inr g'"
  shows "\<forall>i. finite (m_unknowns (heap g' i))"
proof (cases "cell g x y \<noteq> UNKNOWN")
  case True
  with assms have "g' = g\<lparr>m_sitrep := CONTRADICTION_FOUND\<rparr>"
    by (auto simp: mark_def split: if_splits)
  with assms(1) show ?thesis by simp
next
  case False
  let ?h = "fold (\<lambda>i h. h(i := unk_erase (h i) x y)) (m_regions g) (heap g)"
  let ?g2 = "g\<lparr>m_cells := (m_cells g)((x, y) := (s, region g x y)), heap := ?h\<rparr>"
  from assms(2) False obtain g3 where a: "add_region ?g2 x y = Inr g3"
    and g': "g' = fold (\<lambda>(a, b) g'. fuse_regions g' (region g' x y) (region g' a b))
                      (for_valid_neighbors g3 x y) g3"
    by (auto simp: mark_def Let_def split: if_splits sum.splits)
  have "?h i = (if i \<in> set (m_regions g) then unk_erase (heap g i) x y else heap g i)" for i
    by (simp add: fold_unk_erase)
  with assms(1) have "\<forall>i. finite (m_unknowns (heap ?g2 i))" by (simp add: unk_erase_def)
  then have "\<forall>i. finite (m_unknowns (heap g3 i))" using a by (rule finite_unknowns_add_region)
  then show ?thesis unfolding g' by (rule finite_unknowns_fold_fuse)
qed

lemma finite_unknowns_ctor_loop:
  assumes "\<forall>i. finite (m_unknowns (heap g i))" and "ctor_loop v ps g = Inr g'"
  shows "\<forall>i. finite (m_unknowns (heap g' i))"
  using assms
proof (induction ps arbitrary: g)
  case Nil
  then show ?case by simp
next
  case (Cons p ps)
  obtain x y where p: "p = (x, y)" by (cases p)
  let ?n = "v ! nat (x + y * m_width g)"
  show ?case
  proof (cases "?n > 0")
    case False
    with Cons.prems(2) p have "ctor_loop v ps g = Inr g'" by (simp add: Let_def)
    with Cons.IH Cons.prems(1) show ?thesis by blast
  next
    case True
    let ?g1 = "g\<lparr>m_cells := (m_cells g)((x, y) := (?n, region g x y))\<rparr>"
    from Cons.prems(2) True p obtain ga where a: "add_region ?g1 x y = Inr ga"
      and l: "ctor_loop v ps (ga\<lparr>m_total_black := wrap_int (m_total_black ga - ?n)\<rparr>) = Inr g'"
      by (auto simp: Let_def split: if_splits sum.splits)
    from Cons.prems(1) have "\<forall>i. finite (m_unknowns (heap ?g1 i))" by simp
    then have "\<forall>i. finite (m_unknowns (heap ga i))" using a by (rule finite_unknowns_add_region)
    then have "\<forall>i. finite (m_unknowns (heap (ga\<lparr>m_total_black := wrap_int (m_total_black ga - ?n)\<rparr>) i))"
      by simp
    from Cons.IH [OF this l] show ?thesis .
  qed
qed

lemma reached_finite_unknowns:
  assumes "reached g"
  shows "\<forall>i. finite (m_unknowns (heap g i))"
  using assms
proof (induction rule: reached.induct)
  case (constructed w h s g)
  let ?g0 = "\<lparr>m_width = w, m_height = h, m_total_black = wrap_int (w * h),
                       m_cells = (\<lambda>p. (UNKNOWN, None)), m_regions = [],
                       m_sitrep = KEEP_GOING, m_prng = 1729,
                       heap = (\<lambda>i. \<lparr>m_state = UNKNOWN, m_coords = {}, m_unknowns = {}\<rparr>),
                       heap_next = 0\<rparr>"
  from constructed obtain v where l: "ctor_loop v (cells_xy w h) ?g0 = Inr g"
    by (auto simp: Grid_ctor_def split: if_splits sum.splits)
  have "\<forall>i. finite (m_unknowns (heap ?g0 i))" by simp
  then show ?case using l by (rule finite_unknowns_ctor_loop)
next
  case (marked g s x y g')
  then show ?case using finite_unknowns_mark by blast
qed

text \<open>
  The rule of complete islands. On a grid whose complete islands record only Unknown
  cells as liberties: after \<^verbatim>\<open>analyze_complete_islands\<close> has run once and its marks are
  committed, running it again on the resulting grid returns false and changes nothing.
\<close>

lemma complete_islands_again:
  assumes "complete_liberties_unknown g" and "\<forall>i. finite (m_unknowns (heap g i))"
    and "heap_fresh g"
    and "analyze_complete_islands g = Inr (b, g')"
  shows "analyze_complete_islands g' = Inr (False, g')"
proof -
  let ?complete = "\<lambda>g i. numbered (heap g i) \<and> size_R (heap g i) = number (heap g i)"
  let ?B = "\<Union>i\<in>{i \<in> set (m_regions g). ?complete g i}. m_unknowns (heap g i)"
  from assms(4) have p: "process g ?B {} = Inr (b, g')"
    by (simp add: analyze_complete_islands_def complete_islands_marks_eq)
  show ?thesis
  proof (cases "?B = {}")
    case True
    with p have "g' = g" by (simp add: process_nothing)
    with True show ?thesis
      by (simp add: analyze_complete_islands_def complete_islands_marks_eq process_nothing)
  next
    case False
    from process_black_only [OF p False]
    have m: "mark_all BLACK (sorted_list_of_set ?B) g = Inr g'" .
    have fin: "finite ?B" using assms(2) by simp
    then have d: "distinct (sorted_list_of_set ?B)" and s: "set (sorted_list_of_set ?B) = ?B"
      by simp_all
    have u: "\<forall>(x, y)\<in>set (sorted_list_of_set ?B). cell g x y = UNKNOWN"
      unfolding s using assms(1) by (auto simp: complete_liberties_unknown_def)
    note n = mark_all_black_numbered [OF m d u assms(3), unfolded s]
    have empty: "m_unknowns (heap g' i) = {}"
      if i: "i \<in> set (m_regions g')" "?complete g' i" for i
    proof -
      from n i have a: "i \<in> set (m_regions g)" "numbered (heap g i)" by blast+
      with n have h: "heap g' i = (heap g i)\<lparr>m_unknowns := m_unknowns (heap g i) - ?B\<rparr>"
        by blast
      with i(2) have "?complete g i" by (simp add: numbered_def size_R_def number_def)
      with a(1) have "m_unknowns (heap g i) \<subseteq> ?B" by blast
      with h show ?thesis by simp
    qed
    then have "(\<Union>i\<in>{i \<in> set (m_regions g'). ?complete g' i}. m_unknowns (heap g' i)) = {}"
      by blast
    then show ?thesis
      by (simp add: analyze_complete_islands_def complete_islands_marks_eq process_nothing)
  qed
qed

text \<open>
  Conversely, a known cell among the liberties of a complete island stays there: \<^verbatim>\<open>mark\<close>
  erases from the liberties only the cell it colours, and it colours no known cell. The
  rule then proposes that cell at every call.
\<close>

lemma mark_all_black_islands:
  assumes "mark_all BLACK ps g = Inr g'" and "distinct ps" and "heap_fresh g"
  shows "(\<forall>i. i \<in> set (m_regions g') \<and> numbered (heap g' i)
               \<longleftrightarrow> i \<in> set (m_regions g) \<and> numbered (heap g i))
       \<and> (\<forall>i\<in>set (m_regions g). numbered (heap g i) \<longrightarrow>
              heap g' i = (heap g i)\<lparr>m_unknowns := m_unknowns (heap g i)
                                     - {p \<in> set ps. cell g (fst p) (snd p) = UNKNOWN}\<rparr>)
       \<and> heap_fresh g'"
  using assms
proof (induction ps arbitrary: g)
  case Nil
  then show ?case by simp
next
  case (Cons p ps)
  obtain x y where p: "p = (x, y)" by (cases p)
  from Cons.prems(1) p obtain g1 where m: "mark BLACK x y g = Inr g1"
    and r: "mark_all BLACK ps g1 = Inr g'" by (auto split: sum.splits)
  have d: "distinct ps" and np: "p \<notin> set ps" using Cons.prems(2) by simp_all
  have same: "{q \<in> set ps. cell g1 (fst q) (snd q) = UNKNOWN}
                = {q \<in> set ps. cell g (fst q) (snd q) = UNKNOWN}"
    using np p mark_cell [OF m] by (auto split: if_splits)
  show ?case
  proof (cases "cell g x y = UNKNOWN")
    case True
    note s = mark_black_numbered [OF m True Cons.prems(3)]
    from s have f1: "heap_fresh g1" by simp
    note ih = Cons.IH [OF r d f1, unfolded same]
    have 1: "i \<in> set (m_regions g') \<and> numbered (heap g' i)
               \<longleftrightarrow> i \<in> set (m_regions g) \<and> numbered (heap g i)" for i
      using ih s by blast
    have 2: "heap g' i = (heap g i)\<lparr>m_unknowns := m_unknowns (heap g i)
                - {q \<in> set (p # ps). cell g (fst q) (snd q) = UNKNOWN}\<rparr>"
      if "i \<in> set (m_regions g)" "numbered (heap g i)" for i
    proof -
      from s that have a: "i \<in> set (m_regions g1)" "numbered (heap g1 i)"
        "heap g1 i = unk_erase (heap g i) x y" by blast+
      with ih have "heap g' i = (heap g1 i)\<lparr>m_unknowns := m_unknowns (heap g1 i)
                - {q \<in> set ps. cell g (fst q) (snd q) = UNKNOWN}\<rparr>"
        by blast
      moreover have "m_unknowns (heap g i) - {(x, y)} - {q \<in> set ps. cell g (fst q) (snd q) = UNKNOWN}
                     = m_unknowns (heap g i) - {q \<in> set (p # ps). cell g (fst q) (snd q) = UNKNOWN}"
        using p True by auto
      ultimately show ?thesis using a(3) by (simp add: unk_erase_def)
    qed
    from 1 2 ih show ?thesis by blast
  next
    case False
    with m have g1: "g1 = g\<lparr>m_sitrep := CONTRADICTION_FOUND\<rparr>"
      by (auto simp: mark_def split: if_splits)
    have f1: "heap_fresh g1" using Cons.prems(3) by (simp add: g1 heap_fresh_def)
    note ih = Cons.IH [OF r d f1, unfolded same]
    have "{q \<in> set (p # ps). cell g (fst q) (snd q) = UNKNOWN}
            = {q \<in> set ps. cell g (fst q) (snd q) = UNKNOWN}"
      using False p by auto
    with ih show ?thesis by (simp add: g1)
  qed
qed

lemma process_nonempty:
  assumes "mb \<noteq> {}"
  shows "process g mb mw \<noteq> Inr (False, g')"
  using assms by (auto simp: process_def split: sum.splits)

lemma complete_islands_known_liberty:
  assumes "\<forall>i. finite (m_unknowns (heap g i))" and "heap_fresh g"
    and "analyze_complete_islands g = Inr (b, g')"
    and "i \<in> set (m_regions g)" and "numbered (heap g i)"
    and "size_R (heap g i) = number (heap g i)"
    and "(x, y) \<in> m_unknowns (heap g i)" and "cell g x y \<noteq> UNKNOWN"
  shows "analyze_complete_islands g' \<noteq> Inr (False, g')"
proof -
  let ?complete = "\<lambda>g i. numbered (heap g i) \<and> size_R (heap g i) = number (heap g i)"
  let ?B = "\<Union>i\<in>{i \<in> set (m_regions g). ?complete g i}. m_unknowns (heap g i)"
  let ?B' = "\<Union>i\<in>{i \<in> set (m_regions g'). ?complete g' i}. m_unknowns (heap g' i)"
  from assms(3) have p: "process g ?B {} = Inr (b, g')"
    by (simp add: analyze_complete_islands_def complete_islands_marks_eq)
  from assms(4-7) have B: "(x, y) \<in> ?B" by blast
  then have "?B \<noteq> {}" by blast
  from process_black_only [OF p this]
  have m: "mark_all BLACK (sorted_list_of_set ?B) g = Inr g'" .
  have fin: "finite ?B" using assms(1) by simp
  then have d: "distinct (sorted_list_of_set ?B)" by simp
  note n = mark_all_black_islands [OF m d assms(2)]
  from n assms(4,5) have i': "i \<in> set (m_regions g')" "numbered (heap g' i)" by blast+
  from n assms(4,5)
  have h: "heap g' i = (heap g i)\<lparr>m_unknowns := m_unknowns (heap g i)
              - {p \<in> set (sorted_list_of_set ?B). cell g (fst p) (snd p) = UNKNOWN}\<rparr>"
    by blast
  with assms(6) have c: "?complete g' i" using i'(2) by (simp add: size_R_def number_def)
  from h assms(7,8) have "(x, y) \<in> m_unknowns (heap g' i)" by simp
  with i'(1) c have "(x, y) \<in> ?B'" by blast
  then have "?B' \<noteq> {}" by blast
  then show ?thesis
    by (simp add: analyze_complete_islands_def complete_islands_marks_eq process_nonempty)
qed

subsection \<open>Region pointers and the copy of a grid\<close>

text \<open>
  The grids that the constructor and \<^verbatim>\<open>mark\<close> produce keep their region pointers in
  order. On such a grid the copy constructor points every cell of a region at the copy
  of the region, at a new address, and leaves the regions of the original as they are;
  \<^verbatim>\<open>mark\<close> on the copy then never writes to a region of the original.
\<close>

lemma pointers_okD:
  assumes "pointers_ok g" and "region g x y = Some i"
  shows "i \<in> set (m_regions g)" and "(x, y) \<in> m_coords (heap g i)" and "i < heap_next g"
    and "finite (m_coords (heap g i))"
  using assms unfolding pointers_ok_def by blast+

lemma pointers_ok_add_region:
  assumes "pointers_ok g" and "add_region g x y = Inr g'"
  shows "pointers_ok g'"
proof -
  let ?n = "heap_next g"
  let ?r = "\<lparr>m_state = cell g x y, m_coords = {(x, y)},
             m_unknowns = insert_valid_unknown_neighbors g {} x y\<rparr>"
  from assms(2) have g': "g' = g\<lparr>m_cells := (m_cells g)((x, y) := (cell g x y, Some ?n)),
                 m_regions := insort_insert ?n (m_regions g),
                 heap := (heap g)(?n := ?r),
                 heap_next := Suc ?n\<rparr>"
    by (auto simp: add_region_def Region_ctor_def split: if_splits)
  have fresh: "i \<noteq> ?n" if "i \<in> set (m_regions g)" for i
    using assms(1) that by (auto simp: pointers_ok_def)
  show ?thesis
    unfolding pointers_ok_def
  proof (intro conjI ballI allI impI)
    fix i assume "i \<in> set (m_regions g')"
    then have "i = ?n \<or> i \<in> set (m_regions g)" by (auto simp: g' set_insort_insert)
    then show "i < heap_next g'" "finite (m_coords (heap g' i))"
      using assms(1) fresh by (auto simp: g' pointers_ok_def)
  next
    fix a b i assume r: "region g' a b = Some i"
    have "i \<in> set (m_regions g') \<and> (a, b) \<in> m_coords (heap g' i)"
    proof (cases "(a, b) = (x, y)")
      case True
      with r have "i = ?n" by (simp add: g' region_def)
      with True show ?thesis by (simp add: g' set_insort_insert)
    next
      case False
      with r have old: "region g a b = Some i" by (auto simp: g' region_def)
      note d = pointers_okD [OF assms(1) old]
      with fresh show ?thesis by (auto simp: g' set_insort_insert)
    qed
    then show "i \<in> set (m_regions g')" "(a, b) \<in> m_coords (heap g' i)" by simp_all
  qed
qed

lemma pointers_ok_fuse_regions:
  assumes "pointers_ok g" and "p1 = None \<or> p1 \<in> Some ` set (m_regions g)"
    and "p2 = None \<or> p2 \<in> Some ` set (m_regions g)"
  shows "pointers_ok (fuse_regions g p1 p2)"
proof (cases "\<exists>a b. p1 = Some a \<and> p2 = Some b \<and> a \<noteq> b
                \<and> \<not> (numbered (heap g a) \<and> numbered (heap g b))
                \<and> black (heap g a) = black (heap g b)")
  case False
  have "fuse_regions g p1 p2 = g \<or> fuse_regions g p1 p2 = g\<lparr>m_sitrep := CONTRADICTION_FOUND\<rparr>"
    using False by (auto simp: fuse_regions_def split: option.splits)
  with assms(1) show ?thesis
    by (auto simp: pointers_ok_def region_def)
next
  case True
  then obtain a b where ab: "p1 = Some a" "p2 = Some b" "a \<noteq> b"
    "\<not> (numbered (heap g a) \<and> numbered (heap g b))" "black (heap g a) = black (heap g b)"
    by blast
  define a' b' where "a' = (if size_R (heap g b) > size_R (heap g a) then b else a)"
    and "b' = (if size_R (heap g b) > size_R (heap g a) then a else b)"
  define r1 r2 where "r1 = (if numbered (heap g b') then b' else a')"
    and "r2 = (if numbered (heap g b') then a' else b')"
  have r12: "r1 \<noteq> r2" "r1 \<in> set (m_regions g)" "r2 \<in> set (m_regions g)"
    using ab assms(2,3) by (auto simp: r1_def r2_def a'_def b'_def)
  let ?primary = "(heap g r1)\<lparr>m_coords := m_coords (heap g r1) \<union> m_coords (heap g r2),
                 m_unknowns := m_unknowns (heap g r1) \<union> m_unknowns (heap g r2)\<rparr>"
  let ?g' = "g\<lparr>m_cells := repoint r1 (sorted_list_of_set (m_coords (heap g r2))) (m_cells g),
               m_regions := removeAll r2 (m_regions g),
               heap := (heap g)(r1 := ?primary)\<rparr>"
  have f: "fuse_regions g p1 p2 = ?g'"
    using ab by (auto simp: fuse_regions_def Let_def r1_def r2_def a'_def b'_def)
  from assms(1) r12 have fin: "finite (m_coords (heap g r1))" "finite (m_coords (heap g r2))"
    by (auto simp: pointers_ok_def)
  have reg: "region ?g' x y = (if (x, y) \<in> m_coords (heap g r2) then Some r1 else region g x y)"
    for x y using fin by (simp add: region_def repoint_apply)
  show ?thesis
    unfolding f pointers_ok_def
  proof (intro conjI ballI allI impI)
    fix i assume "i \<in> set (m_regions ?g')"
    then have "i \<in> set (m_regions g)" by auto
    with assms(1) fin show "i < heap_next ?g'" "finite (m_coords (heap ?g' i))"
      by (auto simp: pointers_ok_def)
  next
    fix x y i assume r: "region ?g' x y = Some i"
    have "i \<in> set (m_regions ?g') \<and> (x, y) \<in> m_coords (heap ?g' i)"
    proof (cases "(x, y) \<in> m_coords (heap g r2)")
      case True
      with r reg have "i = r1" by simp
      with True r12 show ?thesis by simp
    next
      case False
      with r reg have old: "region g x y = Some i" by simp
      note d = pointers_okD [OF assms(1) old]
      from d(2) False have "i \<noteq> r2" by auto
      with d show ?thesis by auto
    qed
    then show "i \<in> set (m_regions ?g')" "(x, y) \<in> m_coords (heap ?g' i)" by simp_all
  qed
qed

lemma region_option:
  assumes "pointers_ok g"
  shows "region g x y = None \<or> region g x y \<in> Some ` set (m_regions g)"
  using pointers_okD(1) [OF assms] by (cases "region g x y") auto

lemma pointers_ok_fold_fuse:
  assumes "pointers_ok g"
  shows "pointers_ok (fold (\<lambda>(a, b) g'. fuse_regions g' (region g' x y) (region g' a b)) ps g)"
  using assms
proof (induction ps arbitrary: g)
  case Nil
  then show ?case by simp
next
  case (Cons p ps)
  obtain a b where p: "p = (a, b)" by (cases p)
  have "pointers_ok (fuse_regions g (region g x y) (region g a b))"
    using Cons.prems region_option [OF Cons.prems] by (intro pointers_ok_fuse_regions) auto
  from Cons.IH [OF this] p show ?case by simp
qed

lemma pointers_ok_mark:
  assumes "pointers_ok g" and "mark s x y g = Inr g'"
  shows "pointers_ok g'"
proof (cases "cell g x y \<noteq> UNKNOWN")
  case True
  with assms have "g' = g\<lparr>m_sitrep := CONTRADICTION_FOUND\<rparr>"
    by (auto simp: mark_def split: if_splits)
  with assms(1) show ?thesis by (simp add: pointers_ok_def region_def)
next
  case False
  let ?g1 = "g\<lparr>m_cells := (m_cells g)((x, y) := (s, region g x y))\<rparr>"
  let ?g2 = "?g1\<lparr>heap := fold (\<lambda>i h. h(i := unk_erase (h i) x y)) (m_regions ?g1) (heap ?g1)\<rparr>"
  from assms(2) False obtain g3 where a: "add_region ?g2 x y = Inr g3"
    and g': "g' = fold (\<lambda>(a, b) g'. fuse_regions g' (region g' x y) (region g' a b))
                      (for_valid_neighbors g3 x y) g3"
    by (auto simp: mark_def Let_def split: if_splits sum.splits)
  have "heap ?g2 i = (if i \<in> set (m_regions g) then unk_erase (heap g i) x y else heap g i)"
    for i by (simp add: fold_unk_erase)
  then have c2: "m_coords (heap ?g2 i) = m_coords (heap g i)" for i
    by (simp add: unk_erase_def)
  have r2: "region ?g2 a b = region g a b" for a b
    by (simp add: region_def)
  have "pointers_ok ?g2"
    unfolding pointers_ok_def c2 r2 using assms(1) by (simp add: pointers_ok_def)
  then have "pointers_ok g3" using a by (rule pointers_ok_add_region)
  then show ?thesis unfolding g' by (rule pointers_ok_fold_fuse)
qed

lemma pointers_ok_ctor_loop:
  assumes "pointers_ok g" and "ctor_loop v ps g = Inr g'"
  shows "pointers_ok g'"
  using assms
proof (induction ps arbitrary: g)
  case Nil
  then show ?case by simp
next
  case (Cons p ps)
  obtain x y where p: "p = (x, y)" by (cases p)
  let ?n = "v ! nat (x + y * m_width g)"
  show ?case
  proof (cases "?n > 0")
    case False
    with Cons.prems(2) p have "ctor_loop v ps g = Inr g'" by (simp add: Let_def)
    from Cons.IH [OF Cons.prems(1) this] show ?thesis .
  next
    case True
    let ?g1 = "g\<lparr>m_cells := (m_cells g)((x, y) := (?n, region g x y))\<rparr>"
    from Cons.prems(2) True p obtain ga where a: "add_region ?g1 x y = Inr ga"
      and l: "ctor_loop v ps (ga\<lparr>m_total_black := wrap_int (m_total_black ga - ?n)\<rparr>) = Inr g'"
      by (auto simp: Let_def split: if_splits sum.splits)
    have "pointers_ok ?g1" using Cons.prems(1) by (simp add: pointers_ok_def region_def)
    then have "pointers_ok ga" using a by (rule pointers_ok_add_region)
    then have "pointers_ok (ga\<lparr>m_total_black := wrap_int (m_total_black ga - ?n)\<rparr>)"
      by (simp add: pointers_ok_def region_def)
    from Cons.IH [OF this l] show ?thesis .
  qed
qed

lemma reached_pointers_ok:
  assumes "reached g"
  shows "pointers_ok g"
  using assms
proof (induction rule: reached.induct)
  case (constructed w h s g)
  let ?g0 = "\<lparr>m_width = w, m_height = h, m_total_black = wrap_int (w * h),
                       m_cells = (\<lambda>p. (UNKNOWN, None)), m_regions = [],
                       m_sitrep = KEEP_GOING, m_prng = 1729,
                       heap = (\<lambda>i. \<lparr>m_state = UNKNOWN, m_coords = {}, m_unknowns = {}\<rparr>),
                       heap_next = 0\<rparr>"
  from constructed obtain v where l: "ctor_loop v (cells_xy w h) ?g0 = Inr g"
    by (auto simp: Grid_ctor_def split: if_splits sum.splits)
  have "pointers_ok ?g0" by (simp add: pointers_ok_def region_def)
  then show ?case using l by (rule pointers_ok_ctor_loop)
next
  case (marked g s x y g')
  then show ?case using pointers_ok_mark by blast
qed

lemma reached_heap_fresh:
  assumes "reached g"
  shows "heap_fresh g"
  using reached_pointers_ok [OF assms] by (simp add: pointers_ok_def heap_fresh_def)

lemma above_fuse_regions:
  assumes "regions_above n g"
    and "p1 = None \<or> (\<exists>a. p1 = Some a \<and> n \<le> a)" and "p2 = None \<or> (\<exists>b. p2 = Some b \<and> n \<le> b)"
  shows "regions_above n (fuse_regions g p1 p2) \<and> (\<forall>i<n. heap (fuse_regions g p1 p2) i = heap g i)"
proof (cases "\<exists>a b. p1 = Some a \<and> p2 = Some b \<and> a \<noteq> b
                \<and> \<not> (numbered (heap g a) \<and> numbered (heap g b))
                \<and> black (heap g a) = black (heap g b)")
  case False
  have "fuse_regions g p1 p2 = g \<or> fuse_regions g p1 p2 = g\<lparr>m_sitrep := CONTRADICTION_FOUND\<rparr>"
    using False by (auto simp: fuse_regions_def split: option.splits)
  with assms(1) show ?thesis by (auto simp: regions_above_def region_def)
next
  case True
  then obtain a b where ab: "p1 = Some a" "p2 = Some b" "a \<noteq> b"
    "\<not> (numbered (heap g a) \<and> numbered (heap g b))" "black (heap g a) = black (heap g b)"
    by blast
  define a' b' where "a' = (if size_R (heap g b) > size_R (heap g a) then b else a)"
    and "b' = (if size_R (heap g b) > size_R (heap g a) then a else b)"
  define r1 r2 where "r1 = (if numbered (heap g b') then b' else a')"
    and "r2 = (if numbered (heap g b') then a' else b')"
  have r1: "n \<le> r1" using ab assms(2,3) by (auto simp: r1_def a'_def b'_def)
  let ?primary = "(heap g r1)\<lparr>m_coords := m_coords (heap g r1) \<union> m_coords (heap g r2),
                 m_unknowns := m_unknowns (heap g r1) \<union> m_unknowns (heap g r2)\<rparr>"
  let ?g' = "g\<lparr>m_cells := repoint r1 (sorted_list_of_set (m_coords (heap g r2))) (m_cells g),
               m_regions := removeAll r2 (m_regions g),
               heap := (heap g)(r1 := ?primary)\<rparr>"
  have f: "fuse_regions g p1 p2 = ?g'"
    using ab by (auto simp: fuse_regions_def Let_def r1_def r2_def a'_def b'_def)
  have reg: "region ?g' x y = Some i \<Longrightarrow> i = r1 \<or> region g x y = Some i" for x y i
    by (auto simp: region_def repoint_apply split: if_splits)
  have "n \<le> i" if "region ?g' x y = Some i" for x y i
    using reg [OF that] r1 assms(1) by (auto simp: regions_above_def)
  moreover have "n \<le> heap_next ?g'" "\<forall>i\<in>set (m_regions ?g'). n \<le> i"
    using assms(1) by (auto simp: regions_above_def)
  ultimately have "regions_above n ?g'"
    unfolding regions_above_def by blast
  moreover have "\<forall>i<n. heap ?g' i = heap g i" using r1 by auto
  ultimately show ?thesis unfolding f by blast
qed

lemma above_fold_fuse:
  assumes "regions_above n g"
  shows "regions_above n (fold (\<lambda>(a, b) g'. fuse_regions g' (region g' x y) (region g' a b)) ps g)
       \<and> (\<forall>i<n. heap (fold (\<lambda>(a, b) g'. fuse_regions g' (region g' x y) (region g' a b)) ps g) i
                  = heap g i)"
  using assms
proof (induction ps arbitrary: g)
  case Nil
  then show ?case by simp
next
  case (Cons p ps)
  obtain a b where p: "p = (a, b)" by (cases p)
  let ?g1 = "fuse_regions g (region g x y) (region g a b)"
  have ptr: "region g c d = None \<or> (\<exists>a. region g c d = Some a \<and> n \<le> a)" for c d
    using Cons.prems by (cases "region g c d") (auto simp: regions_above_def)
  note s = above_fuse_regions [OF Cons.prems ptr ptr, of x y a b]
  from s have "regions_above n ?g1" by simp
  from Cons.IH [OF this] s p show ?case by simp
qed

lemma above_mark:
  assumes "regions_above n g" and "mark s x y g = Inr g'"
  shows "regions_above n g' \<and> (\<forall>i<n. heap g' i = heap g i)"
proof (cases "cell g x y \<noteq> UNKNOWN")
  case True
  with assms have "g' = g\<lparr>m_sitrep := CONTRADICTION_FOUND\<rparr>"
    by (auto simp: mark_def split: if_splits)
  with assms(1) show ?thesis by (simp add: regions_above_def region_def)
next
  case False
  let ?g1 = "g\<lparr>m_cells := (m_cells g)((x, y) := (s, region g x y))\<rparr>"
  let ?g2 = "?g1\<lparr>heap := fold (\<lambda>i h. h(i := unk_erase (h i) x y)) (m_regions ?g1) (heap ?g1)\<rparr>"
  from assms(2) False obtain g3 where a: "add_region ?g2 x y = Inr g3"
    and g': "g' = fold (\<lambda>(a, b) g'. fuse_regions g' (region g' x y) (region g' a b))
                      (for_valid_neighbors g3 x y) g3"
    by (auto simp: mark_def Let_def split: if_splits sum.splits)
  have h2: "heap ?g2 i = (if i \<in> set (m_regions g) then unk_erase (heap g i) x y else heap g i)"
    for i by (simp add: fold_unk_erase)
  have low2: "\<forall>i<n. heap ?g2 i = heap g i"
  proof (intro allI impI)
    fix i assume "i < n"
    then have "i \<notin> set (m_regions g)" using assms(1) by (auto simp: regions_above_def)
    then show "heap ?g2 i = heap g i" using h2 [of i] by simp
  qed
  from a have g3: "g3 = ?g2\<lparr>m_cells := (m_cells ?g2)((x, y) := (cell ?g2 x y, Some (heap_next ?g2))),
                 m_regions := insort_insert (heap_next ?g2) (m_regions ?g2),
                 heap := (heap ?g2)(heap_next ?g2 := \<lparr>m_state = cell ?g2 x y, m_coords = {(x, y)},
                            m_unknowns = insert_valid_unknown_neighbors ?g2 {} x y\<rparr>),
                 heap_next := Suc (heap_next ?g2)\<rparr>"
    by (auto simp: add_region_def Region_ctor_def split: if_splits)
  have r3: "i = heap_next g \<or> region g c d = Some i" if "region g3 c d = Some i" for c d i
    using that unfolding g3 by (auto simp: region_def split: if_splits)
  have "n \<le> i" if "region g3 c d = Some i" for c d i
    using r3 [OF that] assms(1) by (auto simp: regions_above_def)
  moreover have "n \<le> heap_next g3" "\<forall>i\<in>set (m_regions g3). n \<le> i"
    unfolding g3 using assms(1) by (auto simp: regions_above_def set_insort_insert)
  ultimately have a3: "regions_above n g3"
    unfolding regions_above_def by blast
  have n: "n \<le> heap_next g" using assms(1) by (simp add: regions_above_def)
  have low3: "\<forall>i<n. heap g3 i = heap g i"
  proof (intro allI impI)
    fix i assume i: "i < n"
    then have "heap g3 i = heap ?g2 i" unfolding g3 using n by simp
    with low2 i show "heap g3 i = heap g i" by simp
  qed
  from above_fold_fuse [OF a3, of x y "for_valid_neighbors g3 x y"] low3
  show ?thesis unfolding g' by simp
qed

lemma copy_alloc_fold:
  fixes other :: Grid
  defines "alloc \<equiv> (\<lambda>i g. g\<lparr>m_regions := insort_insert (heap_next g) (m_regions g),
                               heap := update (heap g) (heap_next g) (heap other i),
                               heap_next := Suc (heap_next g)\<rparr>)"
  shows "heap_next (fold alloc rs g) = heap_next g + length rs
       \<and> set (m_regions (fold alloc rs g))
           = set (m_regions g) \<union> {heap_next g ..< heap_next g + length rs}
       \<and> m_cells (fold alloc rs g) = m_cells g
       \<and> (\<forall>k<length rs. heap (fold alloc rs g) (heap_next g + k) = heap other (rs ! k))
       \<and> (\<forall>i<heap_next g. heap (fold alloc rs g) i = heap g i)"
proof (induction rs arbitrary: g)
  case Nil
  then show ?case by simp
next
  case (Cons r rs)
  let ?n = "heap_next g"
  let ?g1 = "alloc r g"
  let ?g' = "fold alloc rs ?g1"
  have n1: "heap_next ?g1 = Suc ?n" and r1: "set (m_regions ?g1) = insert ?n (set (m_regions g))"
    and c1: "m_cells ?g1 = m_cells g" and h1: "heap ?g1 = (heap g)(?n := heap other r)"
    by (simp_all add: alloc_def set_insort_insert)
  note ih = Cons.IH [of ?g1, unfolded n1 r1 c1]
  have f: "fold alloc (r # rs) g = ?g'" by simp
  have a: "heap_next ?g' = ?n + length (r # rs)" using ih by simp
  have b: "set (m_regions ?g') = set (m_regions g) \<union> {?n ..< ?n + length (r # rs)}"
    using ih by auto
  have c: "m_cells ?g' = m_cells g" using ih by simp
  have low: "heap ?g' i = heap ?g1 i" if "i < Suc ?n" for i using ih that by blast
  have d: "heap ?g' (?n + k) = heap other ((r # rs) ! k)" if "k < length (r # rs)" for k
  proof (cases k)
    case 0
    then show ?thesis using low [of ?n] h1 by simp
  next
    case (Suc k')
    with that have "k' < length rs" by simp
    with ih have "heap ?g' (Suc ?n + k') = heap other (rs ! k')" by blast
    with Suc show ?thesis by simp
  qed
  have e: "heap ?g' i = heap g i" if "i < ?n" for i
    using low [of i] that h1 by simp
  show ?case unfolding f using a b c d e by blast
qed

lemma copy_repoint_fold:
  defines "point \<equiv> (\<lambda>i g. g\<lparr>m_cells := repoint i (sorted_list_of_set (m_coords (heap g i)))
                                             (m_cells g)\<rparr>)"
  assumes "\<forall>i\<in>set js. finite (m_coords (heap g i))"
  shows "heap (fold point js g) = heap g \<and> m_regions (fold point js g) = m_regions g
       \<and> heap_next (fold point js g) = heap_next g
       \<and> (\<forall>p. fst (m_cells (fold point js g) p) = fst (m_cells g p)
             \<and> ((\<exists>i\<in>set js. snd (m_cells (fold point js g) p) = Some i \<and> p \<in> m_coords (heap g i))
                \<or> ((\<forall>i\<in>set js. p \<notin> m_coords (heap g i))
                    \<and> snd (m_cells (fold point js g) p) = snd (m_cells g p))))"
  using assms(2)
proof (induction js arbitrary: g)
  case Nil
  then show ?case by simp
next
  case (Cons j js)
  let ?g1 = "point j g"
  let ?g' = "fold point js ?g1"
  have h1: "heap ?g1 = heap g" and r1: "m_regions ?g1 = m_regions g"
    and n1: "heap_next ?g1 = heap_next g" by (simp_all add: point_def)
  have fin: "finite (m_coords (heap g j))" using Cons.prems by simp
  have c1: "m_cells ?g1 p = (if p \<in> m_coords (heap g j) then (fst (m_cells g p), Some j)
                              else m_cells g p)" for p
    using fin by (simp add: point_def repoint_apply)
  have "\<forall>i\<in>set js. finite (m_coords (heap ?g1 i))" using Cons.prems h1 by simp
  note ih = Cons.IH [OF this, unfolded h1 r1 n1]
  have f: "fold point (j # js) g = ?g'" by simp
  have cellp: "fst (m_cells ?g' p) = fst (m_cells g p)
             \<and> ((\<exists>i\<in>set (j # js). snd (m_cells ?g' p) = Some i \<and> p \<in> m_coords (heap g i))
                \<or> ((\<forall>i\<in>set (j # js). p \<notin> m_coords (heap g i))
                    \<and> snd (m_cells ?g' p) = snd (m_cells g p)))" for p
  proof -
    from ih have 1: "fst (m_cells ?g' p) = fst (m_cells ?g1 p)"
      and 2: "(\<exists>i\<in>set js. snd (m_cells ?g' p) = Some i \<and> p \<in> m_coords (heap g i))
                \<or> ((\<forall>i\<in>set js. p \<notin> m_coords (heap g i))
                    \<and> snd (m_cells ?g' p) = snd (m_cells ?g1 p))" by blast+
    have "fst (m_cells ?g' p) = fst (m_cells g p)" using 1 c1 [of p] by simp
    moreover have "(\<exists>i\<in>set (j # js). snd (m_cells ?g' p) = Some i \<and> p \<in> m_coords (heap g i))
                \<or> ((\<forall>i\<in>set (j # js). p \<notin> m_coords (heap g i))
                    \<and> snd (m_cells ?g' p) = snd (m_cells g p))"
      using 2 c1 [of p] by (cases "p \<in> m_coords (heap g j)") auto
    ultimately show ?thesis by blast
  qed
  show ?case unfolding f using ih cellp by simp
qed

lemma Grid_copy_alloc:
  fixes g :: Grid
  defines "g1 \<equiv> fold (\<lambda>i g'. g'\<lparr>m_regions := insort_insert (heap_next g') (m_regions g'),
                               heap := update (heap g') (heap_next g') (heap g i),
                               heap_next := Suc (heap_next g')\<rparr>)
                 (m_regions g) (g\<lparr>m_regions := []\<rparr>)"
  shows "heap_next g1 = heap_next g + length (m_regions g)"
    and "set (m_regions g1) = {heap_next g ..< heap_next g + length (m_regions g)}"
    and "m_cells g1 = m_cells g"
    and "\<forall>k<length (m_regions g). heap g1 (heap_next g + k) = heap g (m_regions g ! k)"
    and "\<forall>i<heap_next g. heap g1 i = heap g i"
  using copy_alloc_fold [of g "m_regions g" "g\<lparr>m_regions := []\<rparr>"]
  unfolding g1_def by simp_all

lemma Grid_copy_fresh:
  assumes "pointers_ok g"
  shows "regions_above (heap_next g) (Grid_copy g)"
    and "pointers_ok (Grid_copy g)"
    and "\<forall>i<heap_next g. heap (Grid_copy g) i = heap g i"
    and "cell (Grid_copy g) x y = cell g x y"
proof -
  define n rs where "n = heap_next g" and "rs = m_regions g"
  define g1 where "g1 = fold (\<lambda>i g'. g'\<lparr>m_regions := insort_insert (heap_next g') (m_regions g'),
                               heap := update (heap g') (heap_next g') (heap g i),
                               heap_next := Suc (heap_next g')\<rparr>)
                 (m_regions g) (g\<lparr>m_regions := []\<rparr>)"
  define c where "c = fold (\<lambda>i g'. g'\<lparr>m_cells := repoint i (sorted_list_of_set (m_coords (heap g' i)))
                                             (m_cells g')\<rparr>) (m_regions g1) g1"
  have copy: "Grid_copy g = c"
    unfolding Grid_copy_def Let_def c_def g1_def ..
  note a = Grid_copy_alloc [of g, folded g1_def n_def rs_def]
  have n1: "heap_next g1 = n + length rs" and r1: "set (m_regions g1) = {n ..< n + length rs}"
    and c1: "m_cells g1 = m_cells g"
    and new1: "\<And>k. k < length rs \<Longrightarrow> heap g1 (n + k) = heap g (rs ! k)"
    and low1: "\<And>i. i < n \<Longrightarrow> heap g1 i = heap g i"
    using a by blast+
  have fin1: "\<forall>i\<in>set (m_regions g1). finite (m_coords (heap g1 i))"
  proof
    fix i assume "i \<in> set (m_regions g1)"
    with r1 have "n \<le> i" "i < n + length rs" by simp_all
    then have k: "i = n + (i - n)" "i - n < length rs" by arith+
    from new1 [OF k(2)] k(1) have "heap g1 i = heap g (rs ! (i - n))" by simp
    moreover have "rs ! (i - n) \<in> set rs" using k(2) by simp
    ultimately show "finite (m_coords (heap g1 i))"
      using assms by (simp add: pointers_ok_def rs_def)
  qed
  note b = copy_repoint_fold [OF fin1, folded c_def]
  have h: "heap c = heap g1" and r: "m_regions c = m_regions g1"
    and nc: "heap_next c = heap_next g1"
    using b by blast+
  have st: "fst (m_cells c p) = fst (m_cells g1 p)" for p using b by blast
  have ptr: "(\<exists>i\<in>set (m_regions g1). snd (m_cells c p) = Some i \<and> p \<in> m_coords (heap g1 i))
                \<or> ((\<forall>i\<in>set (m_regions g1). p \<notin> m_coords (heap g1 i))
                    \<and> snd (m_cells c p) = snd (m_cells g1 p))" for p
    using b by blast
  have old: "\<exists>i\<in>set (m_regions g1). p \<in> m_coords (heap g1 i)"
    if "snd (m_cells g p) = Some j" for p j
  proof -
    obtain a b where p: "p = (a, b)" by (cases p)
    from that have "region g a b = Some j" by (simp add: region_def p)
    from pointers_okD(1,2) [OF assms this] have j: "j \<in> set rs" "p \<in> m_coords (heap g j)"
      by (simp_all add: p rs_def)
    then obtain k where k: "k < length rs" "rs ! k = j" by (meson in_set_conv_nth)
    from new1 [OF k(1)] k(2) have "heap g1 (n + k) = heap g j" by simp
    moreover have "n + k \<in> set (m_regions g1)" using k(1) r1 by simp
    ultimately show ?thesis using j(2) by (intro bexI [of _ "n + k"]) simp_all
  qed
  have new: "i \<in> set (m_regions g1) \<and> p \<in> m_coords (heap g1 i)"
    if "snd (m_cells c p) = Some i" for p i
  proof (cases "\<exists>i\<in>set (m_regions g1). snd (m_cells c p) = Some i \<and> p \<in> m_coords (heap g1 i)")
    case True
    with that show ?thesis by auto
  next
    case False
    with ptr [of p] have 1: "\<forall>i\<in>set (m_regions g1). p \<notin> m_coords (heap g1 i)"
      and 2: "snd (m_cells c p) = snd (m_cells g1 p)" by blast+
    from 2 that c1 have "snd (m_cells g p) = Some i" by simp
    from old [OF this] 1 show ?thesis by blast
  qed
  have ab: "regions_above n c"
    unfolding regions_above_def
  proof (intro conjI allI impI ballI)
    show "n \<le> heap_next c" using nc n1 by simp
    show "n \<le> i" if "i \<in> set (m_regions c)" for i using that r r1 by simp
    show "n \<le> i" if "region c a b = Some i" for a b i
      using new [of "(a, b)" i] that r1 by (simp add: region_def)
  qed
  have ok: "pointers_ok c"
    unfolding pointers_ok_def
  proof (intro conjI allI impI ballI)
    fix i assume "i \<in> set (m_regions c)"
    then have i: "i \<in> set (m_regions g1)" using r by simp
    then show "i < heap_next c" using nc n1 r1 by simp
    show "finite (m_coords (heap c i))" using fin1 i h by simp
  next
    fix a b i assume "region c a b = Some i"
    then have "snd (m_cells c (a, b)) = Some i" by (simp add: region_def)
    from new [OF this] show "i \<in> set (m_regions c)" "(a, b) \<in> m_coords (heap c i)"
      using r h by simp_all
  qed
  show "regions_above (heap_next g) (Grid_copy g)" using ab by (simp add: copy n_def)
  show "pointers_ok (Grid_copy g)" using ok by (simp add: copy)
  show "\<forall>i<heap_next g. heap (Grid_copy g) i = heap g i"
    using low1 h by (simp add: copy n_def)
  show "cell (Grid_copy g) x y = cell g x y"
    using st [of "(x, y)"] c1 by (simp add: copy cell_def)
qed

subsection \<open>Regions and cells of the grids reached\<close>

text \<open>
  The grids that the constructor and \<^verbatim>\<open>mark\<close> produce keep their regions and their cells
  in agreement.
\<close>

lemma regions_okD:
  assumes "regions_ok g"
  shows "distinct (m_regions g)"
    and "region g x y = None \<longleftrightarrow> cell g x y = UNKNOWN"
    and "i \<in> set (m_regions g) \<Longrightarrow> (a, b) \<in> m_coords (heap g i) \<Longrightarrow> region g a b = Some i"
    and "region g x y = Some i \<Longrightarrow> black (heap g i) \<longleftrightarrow> cell g x y = BLACK"
  using assms unfolding regions_ok_def by blast+

lemma regions_ok_place:
  assumes "pointers_ok g" and "regions_ok g" and "cell g x y = UNKNOWN" and "s \<noteq> UNKNOWN"
    and "\<forall>i. m_coords (h i) = m_coords (heap g i) \<and> m_state (h i) = m_state (heap g i)"
    and "add_region (g\<lparr>m_cells := (m_cells g)((x, y) := (s, region g x y)), heap := h\<rparr>) x y
           = Inr g'"
  shows "regions_ok g'"
proof -
  let ?n = "heap_next g"
  let ?g2 = "g\<lparr>m_cells := (m_cells g)((x, y) := (s, region g x y)), heap := h\<rparr>"
  let ?r = "\<lparr>m_state = s, m_coords = {(x, y)},
             m_unknowns = insert_valid_unknown_neighbors ?g2 {} x y\<rparr>"
  from assms(6) have g': "g' = g\<lparr>m_cells := (m_cells g)((x, y) := (s, Some ?n)),
                 m_regions := insort_insert ?n (m_regions g),
                 heap := h(?n := ?r),
                 heap_next := Suc ?n\<rparr>"
    by (auto simp: add_region_def Region_ctor_def cell_def split: if_splits)
  have fresh: "i \<noteq> ?n" if "i \<in> set (m_regions g)" for i
    using assms(1) that by (auto simp: pointers_ok_def)
  have notin: "(x, y) \<notin> m_coords (heap g i)" if "i \<in> set (m_regions g)" for i
  proof
    assume "(x, y) \<in> m_coords (heap g i)"
    from regions_okD(3) [OF assms(2) that this] regions_okD(2) [OF assms(2), of x y] assms(3)
    show False by simp
  qed
  have bl: "black (h i) = black (heap g i)" for i using assms(5) by (simp add: black_def)
  show ?thesis
    unfolding regions_ok_def
  proof (intro conjI ballI allI impI)
    have "?n \<notin> set (m_regions g)" using fresh by blast
    then show "distinct (m_regions g')"
      using regions_okD(1) [OF assms(2)]
      by (simp add: g' distinct_insort_insert)
  next
    fix a b
    show "region g' a b = None \<longleftrightarrow> cell g' a b = UNKNOWN"
      using regions_okD(2) [OF assms(2), of a b] assms(4)
      by (auto simp: g' region_def cell_def)
  next
    fix i a b assume i: "i \<in> set (m_regions g')" and c: "(a, b) \<in> m_coords (heap g' i)"
    show "region g' a b = Some i"
    proof (cases "i = ?n")
      case True
      with c show ?thesis by (simp add: g' region_def)
    next
      case False
      with i have old: "i \<in> set (m_regions g)" by (auto simp: g' set_insort_insert)
      from c False assms(5) have that: "(a, b) \<in> m_coords (heap g i)" by (simp add: g')
      from notin [OF old] that have "(a, b) \<noteq> (x, y)" by auto
      with regions_okD(3) [OF assms(2) old that] show ?thesis
        by (auto simp: g' region_def)
    qed
  next
    fix a b i assume r: "region g' a b = Some i"
    show "black (heap g' i) \<longleftrightarrow> cell g' a b = BLACK"
    proof (cases "(a, b) = (x, y)")
      case True
      with r have "i = ?n" by (simp add: g' region_def)
      with True show ?thesis by (simp add: g' cell_def black_def)
    next
      case False
      with r have old: "region g a b = Some i" by (auto simp: g' region_def)
      from pointers_okD(1) [OF assms(1) old] fresh have "i \<noteq> ?n" by blast
      with regions_okD(4) [OF assms(2) old] False bl [of i] show ?thesis
        by (auto simp: g' cell_def)
    qed
  qed
qed

lemma regions_ok_fuse_regions:
  assumes "pointers_ok g" and "regions_ok g"
    and "p1 = None \<or> p1 \<in> Some ` set (m_regions g)"
    and "p2 = None \<or> p2 \<in> Some ` set (m_regions g)"
  shows "regions_ok (fuse_regions g p1 p2)"
proof (cases "\<exists>a b. p1 = Some a \<and> p2 = Some b \<and> a \<noteq> b
                \<and> \<not> (numbered (heap g a) \<and> numbered (heap g b))
                \<and> black (heap g a) = black (heap g b)")
  case False
  have "fuse_regions g p1 p2 = g \<or> fuse_regions g p1 p2 = g\<lparr>m_sitrep := CONTRADICTION_FOUND\<rparr>"
    using False by (auto simp: fuse_regions_def split: option.splits)
  with assms(2) show ?thesis
    by (auto simp: regions_ok_def region_def cell_def)
next
  case True
  then obtain a b where ab: "p1 = Some a" "p2 = Some b" "a \<noteq> b"
    "\<not> (numbered (heap g a) \<and> numbered (heap g b))" "black (heap g a) = black (heap g b)"
    by blast
  define a' b' where "a' = (if size_R (heap g b) > size_R (heap g a) then b else a)"
    and "b' = (if size_R (heap g b) > size_R (heap g a) then a else b)"
  define r1 r2 where "r1 = (if numbered (heap g b') then b' else a')"
    and "r2 = (if numbered (heap g b') then a' else b')"
  have r12: "r1 \<noteq> r2" "r1 \<in> set (m_regions g)" "r2 \<in> set (m_regions g)"
    "black (heap g r1) = black (heap g r2)"
    using ab assms(3,4) by (auto simp: r1_def r2_def a'_def b'_def)
  let ?primary = "(heap g r1)\<lparr>m_coords := m_coords (heap g r1) \<union> m_coords (heap g r2),
                 m_unknowns := m_unknowns (heap g r1) \<union> m_unknowns (heap g r2)\<rparr>"
  let ?g' = "g\<lparr>m_cells := repoint r1 (sorted_list_of_set (m_coords (heap g r2))) (m_cells g),
               m_regions := removeAll r2 (m_regions g),
               heap := (heap g)(r1 := ?primary)\<rparr>"
  have f: "fuse_regions g p1 p2 = ?g'"
    using ab by (auto simp: fuse_regions_def Let_def r1_def r2_def a'_def b'_def)
  from assms(1) r12 have fin: "finite (m_coords (heap g r1))" "finite (m_coords (heap g r2))"
    by (auto simp: pointers_ok_def)
  have reg: "region ?g' x y = (if (x, y) \<in> m_coords (heap g r2) then Some r1 else region g x y)"
    for x y using fin by (simp add: region_def repoint_apply)
  have cel: "cell ?g' x y = cell g x y" for x y
    using cell_fuse_regions [of g p1 p2 x y] by (simp only: f)
  have in2: "region g x y = Some r2" if "(x, y) \<in> m_coords (heap g r2)" for x y
    using regions_okD(3) [OF assms(2) r12(3) that] .
  show ?thesis
    unfolding f regions_ok_def
  proof (intro conjI ballI allI impI)
    show "distinct (m_regions ?g')"
      using regions_okD(1) [OF assms(2)] by (simp add: distinct_removeAll)
  next
    fix x y
    show "region ?g' x y = None \<longleftrightarrow> cell ?g' x y = UNKNOWN"
      unfolding reg cel
      using regions_okD(2) [OF assms(2), of x y] in2 [of x y] by auto
  next
    fix i x y assume i: "i \<in> set (m_regions ?g')" and c: "(x, y) \<in> m_coords (heap ?g' i)"
    from i have old: "i \<in> set (m_regions g)" "i \<noteq> r2" by auto
    show "region ?g' x y = Some i"
    proof (cases "i = r1")
      case True
      show ?thesis
      proof (cases "(x, y) \<in> m_coords (heap g r2)")
        case True
        with \<open>i = r1\<close> show ?thesis by (simp add: reg)
      next
        case False
        with c \<open>i = r1\<close> have "(x, y) \<in> m_coords (heap g r1)" by simp
        from regions_okD(3) [OF assms(2) r12(2) this] False \<open>i = r1\<close> show ?thesis
          by (simp add: reg)
      qed
    next
      case False
      with c have ci: "(x, y) \<in> m_coords (heap g i)" by simp
      note p = regions_okD(3) [OF assms(2) old(1) ci]
      have "(x, y) \<notin> m_coords (heap g r2)"
      proof
        assume "(x, y) \<in> m_coords (heap g r2)"
        from in2 [OF this] p old(2) show False by simp
      qed
      with p show ?thesis by (simp add: reg)
    qed
  next
    fix x y i assume r: "region ?g' x y = Some i"
    show "black (heap ?g' i) \<longleftrightarrow> cell ?g' x y = BLACK"
    proof (cases "(x, y) \<in> m_coords (heap g r2)")
      case True
      with r have "i = r1" by (simp add: reg)
      moreover have "black (heap g r2) \<longleftrightarrow> cell g x y = BLACK"
        using regions_okD(4) [OF assms(2) in2 [OF True]] .
      ultimately show ?thesis unfolding cel using r12(4) by (simp add: black_def)
    next
      case False
      with r have old: "region g x y = Some i" by (simp add: reg)
      from regions_okD(4) [OF assms(2) old] show ?thesis
        unfolding cel by (auto simp: black_def)
    qed
  qed
qed

lemma regions_ok_fold_fuse:
  assumes "pointers_ok g" and "regions_ok g"
  shows "regions_ok (fold (\<lambda>(a, b) g'. fuse_regions g' (region g' x y) (region g' a b)) ps g)"
  using assms
proof (induction ps arbitrary: g)
  case Nil
  then show ?case by simp
next
  case (Cons p ps)
  obtain a b where p: "p = (a, b)" by (cases p)
  let ?g1 = "fuse_regions g (region g x y) (region g a b)"
  have 1: "pointers_ok ?g1"
    using Cons.prems(1) region_option [OF Cons.prems(1)]
    by (intro pointers_ok_fuse_regions) auto
  have 2: "regions_ok ?g1"
    using Cons.prems region_option [OF Cons.prems(1)]
    by (intro regions_ok_fuse_regions) auto
  from Cons.IH [OF 1 2] p show ?case by simp
qed

lemma regions_ok_mark:
  assumes "pointers_ok g" and "regions_ok g" and "mark s x y g = Inr g'"
  shows "regions_ok g'"
proof (cases "cell g x y \<noteq> UNKNOWN")
  case True
  with assms have "g' = g\<lparr>m_sitrep := CONTRADICTION_FOUND\<rparr>"
    by (auto simp: mark_def split: if_splits)
  with assms(2) show ?thesis by (simp add: regions_ok_def region_def cell_def)
next
  case False
  let ?g1 = "g\<lparr>m_cells := (m_cells g)((x, y) := (s, region g x y))\<rparr>"
  let ?h = "fold (\<lambda>i h. h(i := unk_erase (h i) x y)) (m_regions g) (heap g)"
  let ?g2 = "g\<lparr>m_cells := (m_cells g)((x, y) := (s, region g x y)), heap := ?h\<rparr>"
  from assms(3) False obtain g3 where a: "add_region ?g2 x y = Inr g3"
    and g': "g' = fold (\<lambda>(a, b) g'. fuse_regions g' (region g' x y) (region g' a b))
                      (for_valid_neighbors g3 x y) g3"
    by (auto simp: mark_def Let_def split: if_splits sum.splits)
  have s: "s \<noteq> UNKNOWN" using mark_colour [OF assms(3)]
    by (auto simp: WHITE_def BLACK_def UNKNOWN_def)
  have "?h i = (if i \<in> set (m_regions g) then unk_erase (heap g i) x y else heap g i)" for i
    by (simp add: fold_unk_erase)
  then have h: "\<forall>i. m_coords (?h i) = m_coords (heap g i) \<and> m_state (?h i) = m_state (heap g i)"
    by (simp add: unk_erase_def)
  from False have u: "cell g x y = UNKNOWN" by simp
  have r3: "regions_ok g3" using assms(1,2) u s h a by (rule regions_ok_place)
  have c2: "m_coords (heap ?g2 i) = m_coords (heap g i)" for i using h by simp
  have r2: "region ?g2 a b = region g a b" for a b by (simp add: region_def)
  have "pointers_ok ?g2"
    unfolding pointers_ok_def c2 r2 using assms(1) by (simp add: pointers_ok_def)
  then have p3: "pointers_ok g3" using a by (rule pointers_ok_add_region)
  show ?thesis unfolding g' using p3 r3 by (rule regions_ok_fold_fuse)
qed

lemma regions_ok_ctor_loop:
  assumes "pointers_ok g" and "regions_ok g" and "ctor_loop v ps g = Inr g'"
    and "distinct ps" and "\<forall>(x, y)\<in>set ps. cell g x y = UNKNOWN"
  shows "regions_ok g'"
  using assms
proof (induction ps arbitrary: g)
  case Nil
  then show ?case by simp
next
  case (Cons p ps)
  obtain x y where p: "p = (x, y)" by (cases p)
  let ?n = "v ! nat (x + y * m_width g)"
  from Cons.prems(4) have d: "distinct ps" by simp
  show ?case
  proof (cases "?n > 0")
    case False
    with Cons.prems(3) p have l: "ctor_loop v ps g = Inr g'" by (simp add: Let_def)
    from Cons.prems(5) have "\<forall>(x, y)\<in>set ps. cell g x y = UNKNOWN" by simp
    from Cons.IH [OF Cons.prems(1,2) l d this] show ?thesis .
  next
    case True
    let ?g1 = "g\<lparr>m_cells := (m_cells g)((x, y) := (?n, region g x y))\<rparr>"
    from Cons.prems(3) True p obtain ga where a: "add_region ?g1 x y = Inr ga"
      and l: "ctor_loop v ps (ga\<lparr>m_total_black := wrap_int (m_total_black ga - ?n)\<rparr>) = Inr g'"
      by (auto simp: Let_def split: if_splits sum.splits)
    let ?g2 = "ga\<lparr>m_total_black := wrap_int (m_total_black ga - ?n)\<rparr>"
    have "pointers_ok ?g1" using Cons.prems(1) by (simp add: pointers_ok_def region_def)
    then have "pointers_ok ga" using a by (rule pointers_ok_add_region)
    then have p2: "pointers_ok ?g2" by (simp add: pointers_ok_def region_def)
    from Cons.prems(5) p have u: "cell g x y = UNKNOWN" by simp
    from True have n: "?n \<noteq> UNKNOWN" by (simp add: UNKNOWN_def)
    have a': "add_region (g\<lparr>m_cells := (m_cells g)((x, y) := (?n, region g x y)),
                            heap := heap g\<rparr>) x y = Inr ga"
      using a by simp
    have "\<forall>i. m_coords (heap g i) = m_coords (heap g i) \<and> m_state (heap g i) = m_state (heap g i)"
      by simp
    with Cons.prems(1,2) u n have "regions_ok ga" using a' by (rule regions_ok_place)
    then have q2: "regions_ok ?g2" by (simp add: regions_ok_def region_def cell_def)
    have "\<forall>(a, b)\<in>set ps. cell ?g2 a b = UNKNOWN"
    proof (clarify)
      fix a b assume ab: "(a, b) \<in> set ps"
      with Cons.prems(4) p have "(a, b) \<noteq> (x, y)" by auto
      moreover from Cons.prems(5) ab have "cell g a b = UNKNOWN" by auto
      ultimately show "cell ?g2 a b = UNKNOWN"
        using add_region_cell [OF a, of a b] by (auto simp: cell_def)
    qed
    from Cons.IH [OF p2 q2 l d this] show ?thesis .
  qed
qed

lemma reached_regions_ok:
  assumes "reached g"
  shows "regions_ok g"
  using assms
proof (induction rule: reached.induct)
  case (constructed w h s g)
  let ?g0 = "\<lparr>m_width = w, m_height = h, m_total_black = wrap_int (w * h),
                       m_cells = (\<lambda>p. (UNKNOWN, None)), m_regions = [],
                       m_sitrep = KEEP_GOING, m_prng = 1729,
                       heap = (\<lambda>i. \<lparr>m_state = UNKNOWN, m_coords = {}, m_unknowns = {}\<rparr>),
                       heap_next = 0\<rparr>"
  from constructed obtain v where l: "ctor_loop v (cells_xy w h) ?g0 = Inr g"
    by (auto simp: Grid_ctor_def split: if_splits sum.splits)
  have 1: "pointers_ok ?g0" by (simp add: pointers_ok_def region_def)
  have 2: "regions_ok ?g0" by (simp add: regions_ok_def region_def cell_def)
  have 3: "distinct (cells_xy w h)"
    using cells_xy_strict_sorted [of w h] strict_sorted_iff by blast
  have 4: "\<forall>(x, y)\<in>set (cells_xy w h). cell ?g0 x y = UNKNOWN" by (simp add: cell_def)
  from 1 2 l 3 4 show ?case by (rule regions_ok_ctor_loop)
next
  case (marked g s x y g')
  then show ?case using regions_ok_mark reached_pointers_ok by blast
qed

subsection \<open>Termination of the confinement test\<close>

text \<open>
  Every iteration of the loop of \<^verbatim>\<open>confined\<close> that goes on closes a cell or, with the
  same cells closed, takes one out of the open ones. On a grid with its region pointers
  in order \<open>enough_fuel g\<close> iterations are therefore enough: \<^verbatim>\<open>confined\<close> and the loops
  that call it return or throw the logic error of \<^verbatim>\<open>confined\<close>.
\<close>

lemma finite_flag_sets [simp]: "finite (not_closed flags)" "finite (opened flags)"
  by (simp_all add: not_closed_def opened_def)

lemma card_flag_sets: "card (not_closed flags) \<le> length flags" "card (opened flags) \<le> length flags"
proof -
  have "not_closed flags \<subseteq> {..<length flags}" "opened flags \<subseteq> {..<length flags}"
    by (auto simp: not_closed_def opened_def)
  from card_mono [OF _ this(1)] card_mono [OF _ this(2)]
  show "card (not_closed flags) \<le> length flags" "card (opened flags) \<le> length flags"
    by simp_all
qed

lemma flags_measure_less:
  assumes "length flags' = length flags" and "not_closed flags' \<subset> not_closed flags"
  shows "flags_measure flags' < flags_measure flags"
proof -
  let ?L = "length flags"
  from assms(2) have "card (not_closed flags') < card (not_closed flags)"
    by (intro psubset_card_mono) simp_all
  then have "Suc (card (not_closed flags')) \<le> card (not_closed flags)" by simp
  then have "(?L + 1) * Suc (card (not_closed flags')) \<le> (?L + 1) * card (not_closed flags)"
    by (rule mult_le_mono2)
  moreover have "card (opened flags') \<le> ?L" using card_flag_sets(2) [of flags'] assms(1) by simp
  ultimately show ?thesis unfolding flags_measure_def assms(1) by simp
qed

lemma flags_measure_less_open:
  assumes "length flags' = length flags" and "not_closed flags' = not_closed flags"
    and "opened flags' \<subset> opened flags"
  shows "flags_measure flags' < flags_measure flags"
proof -
  from assms(3) have "card (opened flags') < card (opened flags)"
    by (intro psubset_card_mono) simp_all
  then show ?thesis unfolding flags_measure_def assms(1,2) by simp
qed

lemma flag_write_length [simp]: "length (flag_write g flags p v) = length flags"
  by (simp add: flag_write_def Let_def)

lemma flag_open_length [simp]: "length (flag_open g flags p) = length flags"
  by (simp add: flag_open_def Let_def)

lemma fold_flag_write_length [simp]:
  "length (fold (\<lambda>c fl. flag_write g fl c v) cs flags) = length flags"
  by (induction cs arbitrary: flags) simp_all

lemma fold_flag_open_length [simp]:
  "length (fold (\<lambda>n fl. flag_open g fl n) ps flags) = length flags"
  by (induction ps arbitrary: flags) simp_all

lemma flag_open_not_closed: "not_closed (flag_open g flags p) = not_closed flags"
  by (auto simp: not_closed_def flag_open_def Let_def nth_list_update split: if_splits)

lemma fold_flag_open_not_closed:
  "not_closed (fold (\<lambda>n fl. flag_open g fl n) ps flags) = not_closed flags"
  by (induction ps arbitrary: flags) (simp_all add: flag_open_not_closed)

lemma flag_write_closed: "not_closed (flag_write g flags p CLOSED) \<subseteq> not_closed flags"
  by (auto simp: not_closed_def flag_write_def Let_def nth_list_update split: if_splits)

lemma flag_write_closed_at:
  assumes "0 \<le> fst p + snd p * m_width g" and "fst p + snd p * m_width g < int (length flags)"
  shows "nat (fst p + snd p * m_width g) \<notin> not_closed (flag_write g flags p CLOSED)"
  using assms by (simp add: not_closed_def flag_write_def Let_def)

lemma fold_flag_write_closed:
  "not_closed (fold (\<lambda>c fl. flag_write g fl c CLOSED) cs flags) \<subseteq> not_closed flags"
proof (induction cs arbitrary: flags)
  case Nil
  then show ?case by simp
next
  case (Cons c cs)
  have "not_closed (fold (\<lambda>c fl. flag_write g fl c CLOSED) cs (flag_write g flags c CLOSED))
          \<subseteq> not_closed (flag_write g flags c CLOSED)" by (rule Cons.IH)
  with flag_write_closed [of g flags c] show ?case by auto
qed

lemma fold_flag_write_closed_at:
  assumes "p \<in> set cs"
    and "0 \<le> fst p + snd p * m_width g" and "fst p + snd p * m_width g < int (length flags)"
  shows "nat (fst p + snd p * m_width g)
           \<notin> not_closed (fold (\<lambda>c fl. flag_write g fl c CLOSED) cs flags)"
  using assms
proof (induction cs arbitrary: flags)
  case Nil
  then show ?case by simp
next
  case (Cons c cs)
  show ?case
  proof (cases "p = c")
    case True
    from flag_write_closed_at [OF Cons.prems(2,3)] True
      fold_flag_write_closed [of g cs "flag_write g flags c CLOSED"]
    show ?thesis by auto
  next
    case False
    with Cons.prems(1) have "p \<in> set cs" by simp
    from Cons.IH [OF this Cons.prems(2), of "flag_write g flags c CLOSED"] Cons.prems(3)
    show ?thesis by simp
  qed
qed

lemma first_open:
  assumes "OPEN \<in> set flags"
  shows "length (takeWhile (\<lambda>f. f \<noteq> OPEN) flags) < length flags"
    and "flags ! length (takeWhile (\<lambda>f. f \<noteq> OPEN) flags) = OPEN"
  using assms by (induction flags) auto

lemma confined_loop_terminates:
  assumes "pointers_ok g" and "flags_measure flags \<le> fuel"
  shows "confined_loop fuel g r verboten_empty flags closed_size cache \<noteq> Inl OUT_OF_FUEL"
  using assms(2)
proof (induction fuel arbitrary: flags closed_size cache)
  case 0
  then have "opened flags = {}" by (simp add: flags_measure_def)
  then have "OPEN \<notin> set flags" by (auto simp: opened_def in_set_conv_nth)
  then show ?case by simp
next
  case (Suc fuel)
  show ?case
  proof (cases "\<not> need g (heap g r) closed_size \<or> OPEN \<notin> set flags")
    case True
    then show ?thesis by auto
  next
    case False
    then have op: "OPEN \<in> set flags" by simp
    define index where "index = length (takeWhile (\<lambda>f. f \<noteq> OPEN) flags)"
    define flags1 where "flags1 = flags[index := NONE]"
    define p where "p = (int index mod m_width g, int index div m_width g)"
    from first_open [OF op] have ix: "index < length flags" "flags ! index = OPEN"
      by (simp_all add: index_def)
    have pi: "fst p + snd p * m_width g = int index" by (simp add: p_def)
    have l1: "length flags1 = length flags" by (simp add: flags1_def)
    have nc1: "not_closed flags1 = not_closed flags"
      using ix by (auto simp: flags1_def not_closed_def nth_list_update)
    have op1: "opened flags1 \<subset> opened flags"
      using ix by (auto simp: flags1_def opened_def nth_list_update)
    have in1: "index \<in> not_closed flags1"
      using ix by (simp add: flags1_def not_closed_def)
    have m1: "flags_measure flags1 \<le> fuel"
      using flags_measure_less_open [OF l1 nc1 op1] Suc.prems by simp
    have step: "flags_measure fl \<le> fuel"
      if "length fl = length flags1" "not_closed fl \<subseteq> not_closed flags1" "index \<notin> not_closed fl"
      for fl
    proof -
      from that(2,3) in1 have "not_closed fl \<subset> not_closed flags1" by blast
      from flags_measure_less [OF that(1) this] m1 show ?thesis by simp
    qed
    have rng: "0 \<le> fst p + snd p * m_width g" "fst p + snd p * m_width g < int (length flags1)"
      using ix l1 pi by simp_all
    show ?thesis
    proof (cases "consider_cell g r p")
      case DISCARD
      with False Suc.IH [OF m1] show ?thesis
        by (simp add: Let_def index_def [symmetric] flags1_def [symmetric] p_def [symmetric])
    next
      case ESCAPED
      with False show ?thesis
        by (simp add: Let_def index_def [symmetric] flags1_def [symmetric] p_def [symmetric])
    next
      case CONFUSED
      with False show ?thesis
        by (simp add: Let_def index_def [symmetric] flags1_def [symmetric] p_def [symmetric])
    next
      case CONSUME
      show ?thesis
      proof (cases "region g (fst p) (snd p)")
        case None
        let ?fl = "fold (\<lambda>n fl. flag_open g fl n) (for_valid_neighbors g (fst p) (snd p))
                         (flag_write g flags1 p CLOSED)"
        have "flags_measure ?fl \<le> fuel"
        proof (rule step)
          show "length ?fl = length flags1" by simp
          show "not_closed ?fl \<subseteq> not_closed flags1"
            by (simp add: fold_flag_open_not_closed flag_write_closed)
          show "index \<notin> not_closed ?fl"
            using flag_write_closed_at [OF rng] pi by (simp add: fold_flag_open_not_closed)
        qed
        from Suc.IH [OF this] CONSUME None False show ?thesis
          by (simp add: Let_def index_def [symmetric] flags1_def [symmetric] p_def [symmetric])
      next
        case (Some area)
        from pointers_okD(2,4) [OF assms(1) Some]
        have pin: "p \<in> set (sorted_list_of_set (m_coords (heap g area)))" by simp
        let ?fl = "fold (\<lambda>n fl. flag_open g fl n)
                         (sorted_list_of_set (m_unknowns (heap g area)))
                         (fold (\<lambda>c fl. flag_write g fl c CLOSED)
                            (sorted_list_of_set (m_coords (heap g area))) flags1)"
        have "flags_measure ?fl \<le> fuel"
        proof (rule step)
          show "length ?fl = length flags1" by simp
          show "not_closed ?fl \<subseteq> not_closed flags1"
            by (simp add: fold_flag_open_not_closed fold_flag_write_closed)
          show "index \<notin> not_closed ?fl"
            using fold_flag_write_closed_at [OF pin rng] pi
            by (simp add: fold_flag_open_not_closed)
        qed
        from Suc.IH [OF this] CONSUME Some False show ?thesis
          by (simp add: Let_def index_def [symmetric] flags1_def [symmetric] p_def [symmetric])
      qed
    qed
  qed
qed

lemma flags_measure_bound: "flags_measure flags < (length flags + 1) * (length flags + 1)"
proof -
  have "(length flags + 1) * card (not_closed flags) \<le> (length flags + 1) * length flags"
    using card_flag_sets(1) [of flags] by (rule mult_le_mono2)
  with card_flag_sets(2) [of flags] show ?thesis by (simp add: flags_measure_def)
qed

lemma confined_terminates:
  assumes "pointers_ok g" and "enough_fuel g \<le> fuel"
  shows "confined fuel g r cache verboten \<noteq> Inl OUT_OF_FUEL"
proof -
  let ?flags = "fold (\<lambda>v fl. flag_write g fl v VERBOTEN) (sorted_list_of_set verboten)
             (fold (\<lambda>c fl. flag_write g fl c CLOSED) (sorted_list_of_set (m_coords (heap g r)))
                (fold (\<lambda>u fl. flag_write g fl u OPEN) (sorted_list_of_set (m_unknowns (heap g r)))
                   (replicate (nat (m_width g * m_height g)) NONE)))"
  have "length ?flags = nat (m_width g * m_height g)" by simp
  with flags_measure_bound [of ?flags] assms(2) have "flags_measure ?flags \<le> fuel"
    by (simp add: enough_fuel_def)
  from confined_loop_terminates [OF assms(1) this] show ?thesis
    by (simp add: confined_def Let_def)
qed

lemma confined_loop_error:
  assumes "confined_loop fuel g r verboten_empty flags closed_size cache = Inl e"
  shows "e = LOGIC_ERROR \<or> e = OUT_OF_FUEL"
  using assms
proof (induction fuel arbitrary: flags closed_size cache)
  case 0
  then show ?case by (simp split: if_splits)
next
  case (Suc fuel)
  then show ?case
    by (simp add: Let_def split: if_splits decision.splits option.splits)
qed

lemma confined_error:
  assumes "pointers_ok g" and "enough_fuel g \<le> fuel"
    and "confined fuel g r cache verboten = Inl e"
  shows "e = LOGIC_ERROR"
proof -
  from assms(3) have "e = LOGIC_ERROR \<or> e = OUT_OF_FUEL"
    by (auto simp: confined_def Let_def split: if_splits dest: confined_loop_error)
  with confined_terminates [OF assms(1,2), of r cache verboten] assms(3) show ?thesis by auto
qed

lemma confinement_regions_error:
  assumes "pointers_ok g" and "enough_fuel g \<le> fuel"
    and "confinement_regions fuel g u is acc = Inl e"
  shows "e = LOGIC_ERROR"
  using assms(3)
proof (induction "is" arbitrary: acc)
  case Nil
  then show ?case by simp
next
  case (Cons i "is")
  obtain mb mw cache where acc: "acc = (mb, mw, cache)" by (cases acc)
  show ?case
  proof (cases "confined fuel g i cache {u}")
    case (Inl e')
    with Cons.prems acc have "e = e'" by simp
    with confined_error [OF assms(1,2) Inl] show ?thesis by simp
  next
    case (Inr res)
    obtain b c1 where res: "res = (b, c1)" by (cases res)
    from Cons.prems acc Inr res obtain acc' where "confinement_regions fuel g u is acc' = Inl e"
      by (auto split: if_splits)
    then show ?thesis by (rule Cons.IH)
  qed
qed

lemma confinement_cells_error:
  assumes "pointers_ok g" and "enough_fuel g \<le> fuel"
    and "confinement_cells fuel g ps acc = Inl e"
  shows "e = LOGIC_ERROR"
  using assms(3)
proof (induction ps arbitrary: acc)
  case Nil
  then show ?case by simp
next
  case (Cons p ps)
  obtain x y where p: "p = (x, y)" by (cases p)
  show ?case
  proof (cases "cell g x y = UNKNOWN")
    case True
    show ?thesis
    proof (cases "confinement_regions fuel g (x, y) (m_regions g) acc")
      case (Inl e')
      with Cons.prems p True have "e = e'" by simp
      with confinement_regions_error [OF assms(1,2) Inl] show ?thesis by simp
    next
      case (Inr acc')
      with Cons.prems p True have "confinement_cells fuel g ps acc' = Inl e" by simp
      then show ?thesis by (rule Cons.IH)
    qed
  next
    case False
    with Cons.prems p have "confinement_cells fuel g ps acc = Inl e" by simp
    then show ?thesis by (rule Cons.IH)
  qed
qed

lemma confinement_others_error:
  assumes "pointers_ok g" and "enough_fuel g \<le> fuel"
    and "confinement_others fuel g i u verboten ks acc = Inl e"
  shows "e = LOGIC_ERROR"
  using assms(3)
proof (induction ks arbitrary: acc)
  case Nil
  then show ?case by simp
next
  case (Cons k ks)
  obtain mb mw cache where acc: "acc = (mb, mw, cache)" by (cases acc)
  show ?case
  proof (cases "k \<noteq> i \<and> numbered (heap g k)")
    case True
    show ?thesis
    proof (cases "confined fuel g k cache verboten")
      case (Inl e')
      with Cons.prems acc True have "e = e'" by simp
      with confined_error [OF assms(1,2) Inl] show ?thesis by simp
    next
      case (Inr res)
      obtain b c1 where res: "res = (b, c1)" by (cases res)
      from Cons.prems acc True Inr res obtain acc' where
        "confinement_others fuel g i u verboten ks acc' = Inl e" by auto
      then show ?thesis by (rule Cons.IH)
    qed
  next
    case False
    with Cons.prems acc have "confinement_others fuel g i u verboten ks acc = Inl e" by auto
    then show ?thesis by (rule Cons.IH)
  qed
qed

lemma confinement_liberties_error:
  assumes "pointers_ok g" and "enough_fuel g \<le> fuel"
    and "confinement_liberties fuel g i us acc = Inl e"
  shows "e = LOGIC_ERROR"
  using assms(3)
proof (induction us arbitrary: acc)
  case Nil
  then show ?case by simp
next
  case (Cons u us)
  show ?case
  proof (cases "confinement_others fuel g i u
             (insert_valid_unknown_neighbors g {u} (fst u) (snd u)) (m_regions g) acc")
    case (Inl e')
    with Cons.prems have "e = e'" by simp
    with confinement_others_error [OF assms(1,2) Inl] show ?thesis by simp
  next
    case (Inr acc')
    with Cons.prems have "confinement_liberties fuel g i us acc' = Inl e" by simp
    then show ?thesis by (rule Cons.IH)
  qed
qed

lemma confinement_partial_error:
  assumes "pointers_ok g" and "enough_fuel g \<le> fuel"
    and "confinement_partial fuel g is acc = Inl e"
  shows "e = LOGIC_ERROR"
  using assms(3)
proof (induction "is" arbitrary: acc)
  case Nil
  then show ?case by simp
next
  case (Cons i "is")
  show ?case
  proof (cases "numbered (heap g i) \<and> size_R (heap g i) < number (heap g i)")
    case True
    show ?thesis
    proof (cases "confinement_liberties fuel g i (unk_list (heap g i)) acc")
      case (Inl e')
      with Cons.prems True have "e = e'" by simp
      with confinement_liberties_error [OF assms(1,2) Inl] show ?thesis by simp
    next
      case (Inr acc')
      with Cons.prems True have "confinement_partial fuel g is acc' = Inl e" by simp
      then show ?thesis by (rule Cons.IH)
    qed
  next
    case False
    with Cons.prems have "confinement_partial fuel g is acc = Inl e" by auto
    then show ?thesis by (rule Cons.IH)
  qed
qed

lemma confinement_marks_error:
  assumes "pointers_ok g" and "enough_fuel g \<le> fuel"
    and "confinement_marks fuel g cache = Inl e"
  shows "e = LOGIC_ERROR"
proof (cases "confinement_cells fuel g (cells_xy (m_width g) (m_height g)) ({}, {}, cache)")
  case (Inl e')
  with assms(3) have "e = e'" by (simp add: confinement_marks_def)
  with confinement_cells_error [OF assms(1,2) Inl] show ?thesis by simp
next
  case (Inr acc)
  with assms(3) have "confinement_partial fuel g (m_regions g) acc = Inl e"
    by (simp add: confinement_marks_def)
  then show ?thesis by (rule confinement_partial_error [OF assms(1,2)])
qed

lemma fuse_regions_sitrep:
  "m_sitrep g = CONTRADICTION_FOUND \<Longrightarrow> m_sitrep (fuse_regions g p1 p2) = CONTRADICTION_FOUND"
  by (simp add: fuse_regions_def Let_def split: option.splits prod.splits)

lemma fold_fuse_sitrep:
  "m_sitrep g = CONTRADICTION_FOUND \<Longrightarrow>
   m_sitrep (fold (\<lambda>(a, b) g'. fuse_regions g' (region g' x y) (region g' a b)) ps g)
     = CONTRADICTION_FOUND"
  by (induction ps arbitrary: g) (auto simp: fuse_regions_sitrep)

lemma mark_sitrep:
  assumes "mark s x y g = Inr g'"
    and "m_sitrep g = CONTRADICTION_FOUND \<or> cell g x y \<noteq> UNKNOWN"
  shows "m_sitrep g' = CONTRADICTION_FOUND"
proof (cases "cell g x y \<noteq> UNKNOWN")
  case True
  with assms(1) show ?thesis by (auto simp: mark_def split: if_splits)
next
  case False
  with assms(2) have c: "m_sitrep g = CONTRADICTION_FOUND" by simp
  let ?g1 = "g\<lparr>m_cells := (m_cells g)((x, y) := (s, region g x y))\<rparr>"
  let ?g2 = "?g1\<lparr>heap := fold (\<lambda>i h. h(i := unk_erase (h i) x y)) (m_regions ?g1) (heap ?g1)\<rparr>"
  from assms(1) False obtain g3 where a: "add_region ?g2 x y = Inr g3"
    and g': "g' = fold (\<lambda>(a, b) g'. fuse_regions g' (region g' x y) (region g' a b))
                      (for_valid_neighbors g3 x y) g3"
    by (auto simp: mark_def Let_def split: if_splits sum.splits)
  from a c have "m_sitrep g3 = CONTRADICTION_FOUND"
    by (auto simp: add_region_def split: sum.splits)
  then show ?thesis unfolding g' by (rule fold_fuse_sitrep)
qed

lemma mark_all_sitrep:
  assumes "mark_all s ps g = Inr g'"
    and "m_sitrep g = CONTRADICTION_FOUND \<or> (\<exists>(x, y)\<in>set ps. cell g x y \<noteq> UNKNOWN)"
  shows "m_sitrep g' = CONTRADICTION_FOUND"
  using assms
proof (induction ps arbitrary: g)
  case Nil
  then show ?case by simp
next
  case (Cons p ps)
  obtain x y where p: "p = (x, y)" by (cases p)
  from Cons.prems(1) p obtain g1 where m: "mark s x y g = Inr g1" and r: "mark_all s ps g1 = Inr g'"
    by (auto split: sum.splits)
  have "m_sitrep g1 = CONTRADICTION_FOUND \<or> (\<exists>(a, b)\<in>set ps. cell g1 a b \<noteq> UNKNOWN)"
  proof (cases "m_sitrep g = CONTRADICTION_FOUND \<or> cell g x y \<noteq> UNKNOWN")
    case True
    from mark_sitrep [OF m True] show ?thesis by simp
  next
    case False
    with Cons.prems(2) p obtain a b where ab: "(a, b) \<in> set ps" "cell g a b \<noteq> UNKNOWN" by auto
    from mark_colour [OF m] have "s \<noteq> UNKNOWN" by (auto simp: WHITE_def BLACK_def UNKNOWN_def)
    with mark_cell [OF m, of a b] ab(2) have "cell g1 a b \<noteq> UNKNOWN" by (auto split: if_splits)
    with ab(1) show ?thesis by auto
  qed
  from Cons.IH [OF r this] show ?case .
qed

lemma process_both_sitrep:
  assumes "process g mb mw = Inr (b, g')" and "finite mb" and "finite mw"
    and "p \<in> mb" and "p \<in> mw" and "cell g (fst p) (snd p) = UNKNOWN"
  shows "m_sitrep g' = CONTRADICTION_FOUND"
proof -
  from assms(1,4) obtain g1 where 1: "mark_all BLACK (sorted_list_of_set mb) g = Inr g1"
    and 2: "mark_all WHITE (sorted_list_of_set mw) g1 = Inr g'"
    by (auto simp: process_def split: if_splits sum.splits)
  from assms(2,4) have "(fst p, snd p) \<in> set (sorted_list_of_set mb)" by simp
  with mark_all_cell [OF 1, of "fst p" "snd p"] assms(6) have "cell g1 (fst p) (snd p) = BLACK"
    by simp
  then have "cell g1 (fst p) (snd p) \<noteq> UNKNOWN" by (simp add: BLACK_def UNKNOWN_def)
  moreover from assms(3,5) have "(fst p, snd p) \<in> set (sorted_list_of_set mw)" by simp
  ultimately have "\<exists>(x, y)\<in>set (sorted_list_of_set mw). cell g1 x y \<noteq> UNKNOWN" by blast
  with mark_all_sitrep [OF 2] show ?thesis by simp
qed

subsection \<open>The direction of confinement analysis\<close>


lemma reached_strip_black: "reached strip_black"
proof -
  have "\<not> isl (Grid_ctor 3 1 ''1  '')" by code_simp
  then have "Grid_ctor 3 1 ''1  '' = Inr (projr (Grid_ctor 3 1 ''1  ''))" by (rule Inr_projr1)
  then have r0: "reached (projr (Grid_ctor 3 1 ''1  ''))" by (rule reached.constructed)
  have "\<not> isl (mark BLACK 1 0 (projr (Grid_ctor 3 1 ''1  '')))" by code_simp
  then have "mark BLACK 1 0 (projr (Grid_ctor 3 1 ''1  '')) = Inr strip_black"
    unfolding strip_black_def by (rule Inr_projr1)
  with r0 show ?thesis by (rule reached.marked)
qed

lemma reached_strip_2: "reached strip_2"
proof -
  have "\<not> isl (Grid_ctor 3 1 ''2  '')" by code_simp
  then have "Grid_ctor 3 1 ''2  '' = Inr strip_2" unfolding strip_2_def by (rule Inr_projr1)
  then show ?thesis by (rule reached.constructed)
qed

lemma reached_strip_3_2: "reached strip_3_2"
proof -
  have "\<not> isl (Grid_ctor 5 1 ''3   2'')" by code_simp
  then have "Grid_ctor 5 1 ''3   2'' = Inr strip_3_2" unfolding strip_3_2_def by (rule Inr_projr1)
  then show ?thesis by (rule reached.constructed)
qed

lemma not_logic_error: "\<not> isl res \<Longrightarrow> res \<noteq> Inl LOGIC_ERROR"
  by (cases res) auto



subsection \<open>The number of black cells\<close>

lemma detect_regions_error:
  assumes "pointers_ok g" and "enough_fuel g \<le> fuel"
    and "detect_regions fuel g is black_cells white_cells cache = Inl e"
  shows "e = LOGIC_ERROR"
  using assms(3)
proof (induction "is" arbitrary: black_cells white_cells cache)
  case Nil
  then show ?case by simp
next
  case (Cons i "is")
  let ?r = "heap g i"
  let ?b = "if black ?r then black_cells + size_R ?r else black_cells"
  let ?w = "if black ?r then white_cells else white_cells + size_R ?r"
  from Cons.prems have ng: "\<not> (white ?r \<and> impossibly_big_white_region g (size_R ?r)
           \<or> numbered ?r \<and> size_R ?r > number ?r)"
    by (auto simp: Let_def split: if_splits)
  show ?case
  proof (cases "confined fuel g i cache {}")
    case (Inl e')
    with Cons.prems ng have "e = e'" by (simp add: Let_def)
    with confined_error [OF assms(1,2) Inl] show ?thesis by simp
  next
    case (Inr res)
    obtain b c1 where res: "res = (b, c1)" by (cases res)
    from Cons.prems ng Inr res have "detect_regions fuel g is ?b ?w c1 = Inl e"
      by (simp add: Let_def split: if_splits)
    then show ?thesis by (rule Cons.IH)
  qed
qed

lemma detect_contradictions_terminates:
  assumes "pointers_ok g" and "enough_fuel g \<le> fuel"
  shows "detect_contradictions fuel g cache \<noteq> Inl OUT_OF_FUEL"
proof
  assume a: "detect_contradictions fuel g cache = Inl OUT_OF_FUEL"
  then have "detect_regions fuel g (m_regions g) 0 0 cache = Inl OUT_OF_FUEL"
    by (auto simp: detect_contradictions_def uh_oh_def split: if_splits sum.splits)
  from detect_regions_error [OF assms this] show False by simp
qed

lemma black_cells_partition:
  assumes "pointers_ok g" and "regions_ok g"
  shows "black_cells_sum g = int (card {(x, y). cell g x y = BLACK})"
proof -
  let ?B = "{i \<in> set (m_regions g). black (heap g i)}"
  have d: "distinct (m_regions g)" using regions_okD(1) [OF assms(2)] .
  have fin: "finite (m_coords (heap g i))" if "i \<in> ?B" for i
    using assms(1) that by (auto simp: pointers_ok_def)
  have "black_cells_sum g = (\<Sum>i\<in>set (m_regions g). if black (heap g i) then size_R (heap g i) else 0)"
    unfolding black_cells_sum_def using d by (simp add: sum_list_distinct_conv_sum_set)
  also have "\<dots> = (\<Sum>i\<in>?B. size_R (heap g i))"
    by (simp add: sum.If_cases Int_def)
  also have "\<dots> = int (\<Sum>i\<in>?B. card (m_coords (heap g i)))"
    by (simp add: size_R_def)
  also have "(\<Sum>i\<in>?B. card (m_coords (heap g i))) = card (\<Union>i\<in>?B. m_coords (heap g i))"
  proof (rule card_UN_disjoint [symmetric])
    show "finite ?B" by simp
    show "\<forall>i\<in>?B. finite (m_coords (heap g i))" using fin by blast
    show "\<forall>i\<in>?B. \<forall>j\<in>?B. i \<noteq> j \<longrightarrow> m_coords (heap g i) \<inter> m_coords (heap g j) = {}"
    proof (intro ballI impI)
      fix i j assume ij: "i \<in> ?B" "j \<in> ?B" "i \<noteq> j"
      show "m_coords (heap g i) \<inter> m_coords (heap g j) = {}"
      proof (rule ccontr)
        assume "m_coords (heap g i) \<inter> m_coords (heap g j) \<noteq> {}"
        then obtain a b where "(a, b) \<in> m_coords (heap g i)" "(a, b) \<in> m_coords (heap g j)"
          by auto
        with regions_okD(3) [OF assms(2), of i a b] regions_okD(3) [OF assms(2), of j a b] ij
        show False by simp
      qed
    qed
  qed
  also have "(\<Union>i\<in>?B. m_coords (heap g i)) = {(x, y). cell g x y = BLACK}"
  proof (intro set_eqI iffI)
    fix c assume "c \<in> (\<Union>i\<in>?B. m_coords (heap g i))"
    then obtain i where i: "i \<in> set (m_regions g)" "black (heap g i)" "c \<in> m_coords (heap g i)"
      by blast
    obtain a b where c: "c = (a, b)" by (cases c)
    from regions_okD(3) [OF assms(2) i(1), of a b] i(3) c have "region g a b = Some i" by simp
    from regions_okD(4) [OF assms(2) this] i(2) c show "c \<in> {(x, y). cell g x y = BLACK}"
      by simp
  next
    fix c assume "c \<in> {(x, y). cell g x y = BLACK}"
    then obtain a b where c: "c = (a, b)" "cell g a b = BLACK" by auto
    then have "cell g a b \<noteq> UNKNOWN" by (simp add: BLACK_def UNKNOWN_def)
    with regions_okD(2) [OF assms(2), of a b] obtain i where r: "region g a b = Some i" by auto
    from pointers_okD(1,2) [OF assms(1) r] regions_okD(4) [OF assms(2) r] c
    show "c \<in> (\<Union>i\<in>?B. m_coords (heap g i))" by auto
  qed
  finally show ?thesis .
qed




subsection \<open>The breadth-first search of unreachable\<close>

text \<open>
  The loop of \<^verbatim>\<open>unreachable\<close> returns false exactly when a walk leads from a cell of the
  queue to a cell that ends the search, and \<open>enough_fuel g\<close> iterations are enough for
  it. The queue holds the counts in ascending order, at most one apart, so a cell is
  never taken with a larger count than a walk gives it.
\<close>

lemma unreachable_loop_step:
  "unreachable_loop (Suc fuel) g ((x, y, n) # q) D =
     (if accepts g (x, y) n then Inr False
      else if expands g (x, y) then
        (case push_neighbors g x y n (q, D) of (q', D') \<Rightarrow> unreachable_loop fuel g q' D')
      else unreachable_loop fuel g q D)"
  by (auto simp: accepts_def expands_def Let_def split: prod.splits)

lemma accepts_not_expands: "accepts g c n \<Longrightarrow> \<not> expands g c"
  by (auto simp: accepts_def expands_def Let_def split: prod.splits if_splits)

lemma impossibly_big_mono:
  assumes "\<not> impossibly_big_white_region g k" and "j \<le> k"
  shows "\<not> impossibly_big_white_region g j"
proof -
  from assms(1) obtain i where "i \<in> set (m_regions g)" "numbered (heap g i)"
    "size_R (heap g i) + k + 1 \<le> number (heap g i)"
    by (auto simp: impossibly_big_white_region_def list_ex_iff)
  with assms(2) show ?thesis
    by (auto simp: impossibly_big_white_region_def list_ex_iff intro!: bexI [of _ i])
qed

lemma accepts_mono:
  assumes "accepts g c n" and "m \<le> n"
  shows "accepts g c m"
proof -
  obtain w nr where a: "adjacent_regions g (fst c) (snd c) = (w, nr)"
    by (cases "adjacent_regions g (fst c) (snd c)")
  let ?size = "(\<Sum>i\<in>w. size_R (heap g i)) + (\<Sum>i\<in>nr. size_R (heap g i))"
  show ?thesis
  proof (cases "card nr = 1")
    case True
    with assms a show ?thesis by (simp add: accepts_def Let_def)
  next
    case False
    with assms(1) a have 1: "\<not> card nr > 1" "w \<noteq> {}"
      "\<not> impossibly_big_white_region g (n + ?size)"
      by (auto simp: accepts_def Let_def split: if_splits)
    from impossibly_big_mono [OF 1(3), of "m + ?size"] assms(2)
    have "\<not> impossibly_big_white_region g (m + ?size)" by simp
    with 1 False a show ?thesis by (simp add: accepts_def Let_def)
  qed
qed

lemma walk_mono:
  assumes "walk g D c n" and "m \<le> n"
  shows "walk g D c m"
  using assms
proof (induction arbitrary: m rule: walk.induct)
  case (arrive c n)
  then show ?case by (auto intro: walk.arrive accepts_mono)
next
  case (move c c' n)
  from move.IH [of "m + 1"] move.prems have "walk g D c' (m + 1)" by simp
  with move.hyps(1-4) show ?case by (rule walk.move)
qed

lemma walk_unknown:
  assumes "walk g D c n"
  shows "cell g (fst c) (snd c) = UNKNOWN"
  using assms by (cases rule: walk.cases) simp_all

lemma walk_restrict:
  assumes "walk g D c n"
  shows "walk g (D \<union> N) c n \<or> (\<exists>c'\<in>N. \<exists>n'\<ge>n + 1. walk g (D \<union> N) c' n')"
  using assms
proof (induction rule: walk.induct)
  case (arrive c n)
  then show ?case by (auto intro: walk.arrive)
next
  case (move c c' n)
  from move.IH show ?case
  proof
    assume w: "walk g (D \<union> N) c' (n + 1)"
    show ?thesis
    proof (cases "c' \<in> N")
      case True
      with w show ?thesis by auto
    next
      case False
      with move.hyps(4) have "c' \<notin> D \<union> N" by simp
      with move.hyps(1-3) have "walk g (D \<union> N) c n" using w by (rule walk.move)
      then show ?thesis by simp
    qed
  next
    assume "\<exists>c''\<in>N. \<exists>n'\<ge>n + 1 + 1. walk g (D \<union> N) c'' n'"
    then obtain c'' n' where "c'' \<in> N" "n' \<ge> n + 1 + 1" "walk g (D \<union> N) c'' n'" by blast
    then show ?thesis by (intro disjI2 bexI [of _ c''] exI [of _ n']) auto
  qed
qed

lemma distinct_for_valid_neighbors: "distinct (for_valid_neighbors g x y)"
  by (simp add: for_valid_neighbors_def)

lemma valid_for_valid_neighbors:
  assumes "valid g x y" and "(a, b) \<in> set (for_valid_neighbors g x y)"
  shows "valid g a b"
  using assms by (auto simp: for_valid_neighbors_def valid_def split: if_splits)

lemma push_fold:
  assumes "distinct ps"
  shows "fold (\<lambda>(x, y) (q, discovered).
             if cell g x y = UNKNOWN \<and> (x, y) \<notin> discovered
             then (q @ [(x, y, n + 1)], insert (x, y) discovered)
             else (q, discovered)) ps (q, D)
         = (q @ map (\<lambda>(a, b). (a, b, n + 1))
                  (filter (\<lambda>(a, b). cell g a b = UNKNOWN \<and> (a, b) \<notin> D) ps),
            D \<union> set (filter (\<lambda>(a, b). cell g a b = UNKNOWN \<and> (a, b) \<notin> D) ps))"
  using assms
proof (induction ps arbitrary: q D)
  case Nil
  then show ?case by simp
next
  case (Cons p ps)
  obtain a b where p: "p = (a, b)" by (cases p)
  from Cons.prems p have d: "distinct ps" and n: "(a, b) \<notin> set ps" by simp_all
  have same: "filter (\<lambda>(c, d). cell g c d = UNKNOWN \<and> (c, d) \<notin> insert (a, b) D) ps
              = filter (\<lambda>(c, d). cell g c d = UNKNOWN \<and> (c, d) \<notin> D) ps"
    using n by (intro filter_cong refl) auto
  show ?case
  proof (cases "cell g a b = UNKNOWN \<and> (a, b) \<notin> D")
    case True
    note ih = Cons.IH [OF d, of "q @ [(a, b, n + 1)]" "insert (a, b) D", unfolded same]
    have "fold (\<lambda>(x, y) (q, discovered).
             if cell g x y = UNKNOWN \<and> (x, y) \<notin> discovered
             then (q @ [(x, y, n + 1)], insert (x, y) discovered)
             else (q, discovered)) (p # ps) (q, D)
          = fold (\<lambda>(x, y) (q, discovered).
             if cell g x y = UNKNOWN \<and> (x, y) \<notin> discovered
             then (q @ [(x, y, n + 1)], insert (x, y) discovered)
             else (q, discovered)) ps (q @ [(a, b, n + 1)], insert (a, b) D)"
      using True p by simp
    also note ih
    finally show ?thesis using True p by simp
  next
    case False
    with Cons.IH [OF d, of q D] p show ?thesis by auto
  qed
qed

lemma push_neighbors_eq:
  "push_neighbors g x y n (q, D)
     = (q @ map (\<lambda>(a, b). (a, b, n + 1)) (fresh_neighbors g x y D),
        D \<union> set (fresh_neighbors g x y D))"
  unfolding push_neighbors_def fresh_neighbors_def
  by (rule push_fold) (rule distinct_for_valid_neighbors)

lemma unreachable_loop_complete:
  assumes "\<exists>(x, y, n)\<in>set q. walk g D (x, y) n"
    and "sorted (map (\<lambda>(x, y, n). n) q)"
    and "\<forall>(x, y, n)\<in>set q. n \<le> (case hd q of (x, y, n) \<Rightarrow> n) + 1"
  shows "unreachable_loop fuel g q D \<noteq> Inr True"
  using assms
proof (induction fuel arbitrary: q D)
  case 0
  then show ?case by (cases q) auto
next
  case (Suc fuel)
  from Suc.prems(1) obtain x y n q0 where q: "q = (x, y, n) # q0" by (cases q) auto
  from Suc.prems(2) q have s0: "sorted (map (\<lambda>(x, y, n). n) q0)"
    and ge: "\<forall>(a, b, k)\<in>set q0. n \<le> k" by auto
  from Suc.prems(3) q have le: "\<forall>(a, b, k)\<in>set q0. k \<le> n + 1" by auto
  show ?case
  proof (cases "accepts g (x, y) n")
    case True
    then show ?thesis by (simp del: unreachable_loop.simps add: q unreachable_loop_step)
  next
    case na: False
    have front: "expands g (x, y) \<and> (\<exists>c'\<in>set (for_valid_neighbors g x y). c' \<notin> D
                    \<and> walk g D c' (n + 1))" if "walk g D (x, y) n"
      using that na by (cases rule: walk.cases) auto
    show ?thesis
    proof (cases "expands g (x, y)")
      case False
      with front Suc.prems(1) q have w: "\<exists>(x, y, n)\<in>set q0. walk g D (x, y) n" by auto
      then obtain e q1 where q0: "q0 = e # q1" by (cases q0) auto
      have "\<forall>(a, b, k)\<in>set q0. k \<le> (case hd q0 of (x, y, n) \<Rightarrow> n) + 1"
        using le ge q0 by (cases e) fastforce
      from Suc.IH [OF w s0 this] na False show ?thesis by (simp del: unreachable_loop.simps add: q unreachable_loop_step)
    next
      case True
      let ?news = "fresh_neighbors g x y D"
      let ?q' = "q0 @ map (\<lambda>(a, b). (a, b, n + 1)) ?news"
      let ?D' = "D \<union> set ?news"
      have new_entry: "(a, b, n + 1) \<in> set ?q'" if "(a, b) \<in> set ?news" for a b
        using that by force
      have lift: "\<exists>(x, y, n)\<in>set ?q'. walk g ?D' (x, y) n"
        if w: "walk g D (a, b) k" and k: "n \<le> k" and e: "(a, b, k) \<in> set ?q' \<or> k = n + 1 \<and> (a, b) \<in> set ?news"
        for a b k
      proof -
        from walk_restrict [OF w, of "set ?news"] show ?thesis
        proof
          assume "walk g ?D' (a, b) k"
          with e new_entry [of a b] show ?thesis by blast
        next
          assume "\<exists>c'\<in>set ?news. \<exists>n'\<ge>k + 1. walk g ?D' c' n'"
          then obtain c' n' where c': "c' \<in> set ?news" "n' \<ge> k + 1" "walk g ?D' c' n'" by blast
          from walk_mono [OF c'(3), of "n + 1"] c'(2) k have "walk g ?D' c' (n + 1)" by simp
          with new_entry [of "fst c'" "snd c'"] c'(1) show ?thesis by force
        qed
      qed
      have w': "\<exists>(x, y, n)\<in>set ?q'. walk g ?D' (x, y) n"
      proof -
        from Suc.prems(1) q obtain a b k where abk: "(a, b, k) \<in> set ((x, y, n) # q0)"
          "walk g D (a, b) k" by auto
        show ?thesis
        proof (cases "(a, b, k) \<in> set q0")
          case True
          with ge have "n \<le> k" by auto
          with abk(2) True show ?thesis by (intro lift [of a b k]) auto
        next
          case False
          with abk have "walk g D (x, y) n" by auto
          from front [OF this] obtain c' where c': "c' \<in> set (for_valid_neighbors g x y)"
            "c' \<notin> D" "walk g D c' (n + 1)" by blast
          from walk_unknown [OF c'(3)] c'(1,2) have "c' \<in> set ?news"
            by (cases c') (auto simp: fresh_neighbors_def)
          with c'(3) show ?thesis by (intro lift [of "fst c'" "snd c'" "n + 1"]) auto
        qed
      qed
      have "map (\<lambda>(x, y, n). n) (map (\<lambda>(a, b). (a, b, n + 1)) ?news)
              = replicate (length ?news) (n + 1)"
        by (simp add: comp_def case_prod_beta map_replicate_const)
      then have s': "sorted (map (\<lambda>(x, y, n). n) ?q')"
        using s0 le by (auto simp: sorted_append)
      from w' obtain e q1 where q': "?q' = e # q1" by (cases ?q') auto
      have hd_ge: "n \<le> (case hd ?q' of (x, y, n) \<Rightarrow> n)"
      proof -
        have "hd ?q' \<in> set ?q'" using q' by (metis list.set_sel(1) list.distinct(1))
        then show ?thesis using ge by auto
      qed
      have b': "\<forall>(a, b, k)\<in>set ?q'. k \<le> (case hd ?q' of (x, y, n) \<Rightarrow> n) + 1"
        using le hd_ge by auto
      from Suc.IH [OF w' s' b'] na True show ?thesis
        by (simp del: unreachable_loop.simps add: q unreachable_loop_step push_neighbors_eq)
    qed
  qed
qed

lemma unreachable_loop_sound:
  assumes "unreachable_loop fuel g q D = Inr False"
    and "\<forall>(x, y, n)\<in>set q. cell g x y = UNKNOWN"
  shows "\<exists>(x, y, n)\<in>set q. walk g {} (x, y) n"
  using assms
proof (induction fuel arbitrary: q D)
  case 0
  then show ?case by (cases q) auto
next
  case (Suc fuel)
  from Suc.prems(1) obtain x y n q0 where q: "q = (x, y, n) # q0" by (cases q) auto
  from Suc.prems(2) q have u: "cell g x y = UNKNOWN"
    and u0: "\<forall>(x, y, n)\<in>set q0. cell g x y = UNKNOWN" by auto
  show ?case
  proof (cases "accepts g (x, y) n")
    case True
    with u have "walk g {} (x, y) n" by (intro walk.arrive) simp_all
    then show ?thesis by (simp add: q)
  next
    case na: False
    show ?thesis
    proof (cases "expands g (x, y)")
      case False
      with na Suc.prems(1) q have "unreachable_loop fuel g q0 D = Inr False"
        by (simp del: unreachable_loop.simps add: unreachable_loop_step)
      from Suc.IH [OF this u0] show ?thesis by (auto simp: q)
    next
      case True
      let ?news = "fresh_neighbors g x y D"
      let ?q' = "q0 @ map (\<lambda>(a, b). (a, b, n + 1)) ?news"
      from na True Suc.prems(1) q
      have l: "unreachable_loop fuel g ?q' (D \<union> set ?news) = Inr False"
        by (simp del: unreachable_loop.simps add: unreachable_loop_step push_neighbors_eq)
      have "\<forall>(x, y, n)\<in>set ?q'. cell g x y = UNKNOWN"
        using u0 by (auto simp: fresh_neighbors_def)
      from Suc.IH [OF l this] obtain e where e: "e \<in> set ?q'"
        "case e of (a, b, k) \<Rightarrow> walk g {} (a, b) k" by blast
      obtain a b k where "e = (a, b, k)" by (cases e)
      with e have abk: "(a, b, k) \<in> set ?q'" "walk g {} (a, b) k" by simp_all
      show ?thesis
      proof (cases "(a, b, k) \<in> set q0")
        case True
        with abk(2) show ?thesis by (auto simp: q)
      next
        case False
        with abk(1) have n: "(a, b) \<in> set (for_valid_neighbors g x y)" "k = n + 1"
          by (auto simp: fresh_neighbors_def)
        have "walk g {} (x, y) n"
          using u True n(1) abk(2) unfolding n(2)
          by (intro walk.move [of g "(x, y)" "(a, b)"]) simp_all
        then show ?thesis by (simp add: q)
      qed
    qed
  qed
qed

lemma finite_valid: "finite {c. valid g (fst c) (snd c)}"
proof -
  have "{c. valid g (fst c) (snd c)} = set (cells_xy (m_width g) (m_height g))"
    by (auto simp: set_cells_xy valid_def)
  then show ?thesis by simp
qed

lemma unreachable_loop_total:
  assumes "\<forall>(x, y, n)\<in>set q. valid g x y"
    and "length q + card ({c. valid g (fst c) (snd c)} - D) \<le> fuel"
  shows "\<exists>b. unreachable_loop fuel g q D = Inr b"
  using assms
proof (induction fuel arbitrary: q D)
  case 0
  then show ?case by auto
next
  case (Suc fuel)
  let ?V = "{c. valid g (fst c) (snd c)}"
  show ?case
  proof (cases q)
    case Nil
    then show ?thesis by auto
  next
    case (Cons e q0)
    obtain x y n where e: "e = (x, y, n)" by (cases e)
    from Suc.prems(1) Cons e have v: "valid g x y" and v0: "\<forall>(x, y, n)\<in>set q0. valid g x y"
      by auto
    from Suc.prems(2) Cons have f0: "length q0 + card (?V - D) \<le> fuel" by simp
    let ?news = "fresh_neighbors g x y D"
    let ?q' = "q0 @ map (\<lambda>(a, b). (a, b, n + 1)) ?news"
    have dn: "distinct ?news"
      by (simp add: fresh_neighbors_def distinct_for_valid_neighbors)
    have sub: "set ?news \<subseteq> ?V - D"
      using valid_for_valid_neighbors [OF v] by (auto simp: fresh_neighbors_def)
    have "card (?V - (D \<union> set ?news)) = card ((?V - D) - set ?news)"
      by (simp add: Diff_eq Int_assoc)
    also have "\<dots> = card (?V - D) - card (set ?news)"
      using sub by (intro card_Diff_subset) simp_all
    also have "card (set ?news) = length ?news" using dn by (rule distinct_card)
    finally have c: "card (?V - (D \<union> set ?news)) = card (?V - D) - length ?news" .
    have "length ?news \<le> card (?V - D)"
      using card_mono [OF _ sub] finite_valid [of g] distinct_card [OF dn] by simp
    with c f0 have f': "length ?q' + card (?V - (D \<union> set ?news)) \<le> fuel" by simp
    have v': "\<forall>(x, y, n)\<in>set ?q'. valid g x y"
      using v0 sub by auto
    from Suc.IH [OF v0 f0] Suc.IH [OF v' f'] show ?thesis
      by (auto simp del: unreachable_loop.simps simp add: Cons e unreachable_loop_step push_neighbors_eq)
  qed
qed

lemma length_cells_xy: "length (cells_xy w h) = nat w * nat h"
proof -
  have "length (cells_xy w h) = sum_list (map (\<lambda>x. nat h) [0..w - 1])"
    by (simp add: cells_xy_def length_concat comp_def)
  also have "\<dots> = length [0..w - 1] * nat h"
    by (simp add: sum_list_triv)
  finally show ?thesis by simp
qed

lemma card_valid: "card {c. valid g (fst c) (snd c)} \<le> nat (m_width g * m_height g)"
proof -
  have "{c. valid g (fst c) (snd c)} = set (cells_xy (m_width g) (m_height g))"
    by (auto simp: set_cells_xy valid_def)
  then have "card {c. valid g (fst c) (snd c)} \<le> nat (m_width g) * nat (m_height g)"
    using card_length [of "cells_xy (m_width g) (m_height g)"] by (simp add: length_cells_xy)
  also have "\<dots> \<le> nat (m_width g * m_height g)"
  proof (cases "0 \<le> m_width g \<and> 0 \<le> m_height g")
    case True
    then show ?thesis by (simp add: nat_mult_distrib)
  next
    case False
    then show ?thesis by auto
  qed
  finally show ?thesis .
qed

lemma unreachable_eq:
  assumes "valid g x y" and "enough_fuel g \<le> fuel"
  shows "unreachable fuel g x y {} = Inr (cell g x y = UNKNOWN \<and> \<not> walk g {} (x, y) 1)"
proof (cases "cell g x y = UNKNOWN")
  case False
  then show ?thesis by (simp add: unreachable_def)
next
  case True
  let ?V = "{c. valid g (fst c) (snd c)}"
  let ?N = "nat (m_width g * m_height g)"
  have "card (?V - {(x, y)}) \<le> card ?V" by (intro card_mono finite_valid) auto
  also note card_valid
  finally have "length [(x, y, 1::int)] + card (?V - {(x, y)}) \<le> ?N + 1" by simp
  also have "?N + 1 \<le> enough_fuel g" by (simp add: enough_fuel_def)
  finally have f: "length [(x, y, 1::int)] + card (?V - {(x, y)}) \<le> fuel" using assms(2) by simp
  have "\<forall>(a, b, n)\<in>set [(x, y, 1::int)]. valid g a b" using assms(1) by simp
  from unreachable_loop_total [OF this f] obtain b
    where b: "unreachable_loop fuel g [(x, y, 1)] {(x, y)} = Inr b" by blast
  have "b \<longleftrightarrow> \<not> walk g {} (x, y) 1"
  proof
    assume b
    show "\<not> walk g {} (x, y) 1"
    proof
      assume w: "walk g {} (x, y) 1"
      from walk_restrict [OF w, of "{(x, y)}"] walk_mono [of g "{(x, y)}" "(x, y)" _ 1]
      have "walk g {(x, y)} (x, y) 1" by auto
      then have "\<exists>(a, b, n)\<in>set [(x, y, 1::int)]. walk g {(x, y)} (a, b) n" by simp
      from unreachable_loop_complete [OF this, of fuel] b \<open>b\<close> show False by simp
    qed
  next
    assume n: "\<not> walk g {} (x, y) 1"
    show b
    proof (rule ccontr)
      assume "\<not> b"
      with b have "unreachable_loop fuel g [(x, y, 1)] {(x, y)} = Inr False" by simp
      from unreachable_loop_sound [OF this] True n show False by simp
    qed
  qed
  with b True show ?thesis by (simp add: unreachable_def)
qed

lemma unreachable_cells_marks_eq:
  assumes "\<forall>(x, y)\<in>set ps. valid g x y" and "enough_fuel g \<le> fuel"
  shows "unreachable_cells_marks fuel g ps mb
           = Inr (mb \<union> {c \<in> set ps. cell g (fst c) (snd c) = UNKNOWN \<and> \<not> walk g {} c 1})"
  using assms(1)
proof (induction ps arbitrary: mb)
  case Nil
  then show ?case by simp
next
  case (Cons p ps)
  obtain x y where p: "p = (x, y)" by (cases p)
  from Cons.prems p have v: "valid g x y" and vs: "\<forall>(x, y)\<in>set ps. valid g x y" by simp_all
  let ?u = "cell g x y = UNKNOWN \<and> \<not> walk g {} (x, y) 1"
  have "unreachable_cells_marks fuel g (p # ps) mb
          = unreachable_cells_marks fuel g ps (if ?u then insert (x, y) mb else mb)"
    by (simp add: p unreachable_eq [OF v assms(2)])
  also have "\<dots> = Inr ((if ?u then insert (x, y) mb else mb)
                      \<union> {c \<in> set ps. cell g (fst c) (snd c) = UNKNOWN \<and> \<not> walk g {} c 1})"
    by (rule Cons.IH [OF vs])
  also have "(if ?u then insert (x, y) mb else mb)
                      \<union> {c \<in> set ps. cell g (fst c) (snd c) = UNKNOWN \<and> \<not> walk g {} c 1}
             = mb \<union> {c \<in> set (p # ps). cell g (fst c) (snd c) = UNKNOWN \<and> \<not> walk g {} c 1}"
    using p by auto
  finally show ?case .
qed

lemma analyze_unreachable_cells_eq:
  assumes "enough_fuel g \<le> fuel"
  shows "analyze_unreachable_cells fuel g = process g (unreachable_set g) {}"
proof -
  have v: "\<forall>(x, y)\<in>set (cells_xy (m_width g) (m_height g)). valid g x y"
    by (auto simp: set_cells_xy valid_def)
  have "{c \<in> set (cells_xy (m_width g) (m_height g)).
           cell g (fst c) (snd c) = UNKNOWN \<and> \<not> walk g {} c 1} = unreachable_set g"
    by (auto simp: unreachable_set_def set_cells_xy valid_def)
  with unreachable_cells_marks_eq [OF v assms, of "{}"] show ?thesis
    by (simp add: analyze_unreachable_cells_def)
qed

subsection \<open>Black marks and the islands\<close>

text \<open>
  Marking unknown cells black leaves the white and the numbered regions, and the
  pointers to them, as they are. So the loop of \<^verbatim>\<open>unreachable\<close> decides every cell in
  the resulting grid as it did before, and every cell on a walk is itself the start of
  a walk: the cells that the rule of unreachable cells leaves unknown stay reachable.
\<close>

lemma same_islands_refl: "same_islands g g"
  by (auto simp: same_islands_def)

lemma same_islands_trans:
  assumes "same_islands g g1" and "same_islands g1 g2" and "pointers_ok g"
  shows "same_islands g g2"
proof -
  have 1: "\<forall>a b i. region g a b = Some i \<and> \<not> black (heap g i) \<longrightarrow> region g2 a b = Some i"
  proof (intro allI impI)
    fix a b i assume r: "region g a b = Some i \<and> \<not> black (heap g i)"
    with assms(1) have 1: "region g1 a b = Some i" unfolding same_islands_def by blast
    from r pointers_okD(1) [OF assms(3), of a b i] have "i \<in> set (m_regions g)" by simp
    with assms(1) r have "m_state (heap g1 i) = m_state (heap g i)"
      unfolding same_islands_def by blast
    with r have "\<not> black (heap g1 i)" by (simp add: black_def)
    with assms(2) 1 show "region g2 a b = Some i" unfolding same_islands_def by blast
  qed
  have 2: "\<forall>a b. region g a b = None \<or> (\<exists>i. region g a b = Some i \<and> black (heap g i)) \<longrightarrow>
            region g2 a b = None \<or> (\<exists>i. region g2 a b = Some i \<and> black (heap g2 i))"
  proof (intro allI impI)
    fix a b assume "region g a b = None \<or> (\<exists>i. region g a b = Some i \<and> black (heap g i))"
    with assms(1) have "region g1 a b = None \<or> (\<exists>i. region g1 a b = Some i \<and> black (heap g1 i))"
      unfolding same_islands_def by blast
    with assms(2) show "region g2 a b = None \<or> (\<exists>i. region g2 a b = Some i \<and> black (heap g2 i))"
      unfolding same_islands_def by blast
  qed
  have 3: "\<forall>i\<in>set (m_regions g). \<not> black (heap g i) \<longrightarrow>
            i \<in> set (m_regions g2) \<and> m_state (heap g2 i) = m_state (heap g i)
              \<and> m_coords (heap g2 i) = m_coords (heap g i)"
  proof (intro ballI impI)
    fix i assume i: "i \<in> set (m_regions g)" "\<not> black (heap g i)"
    with assms(1) have 1: "i \<in> set (m_regions g1)" "m_state (heap g1 i) = m_state (heap g i)"
      "m_coords (heap g1 i) = m_coords (heap g i)"
      unfolding same_islands_def by blast+
    with i(2) have "\<not> black (heap g1 i)" by (simp add: black_def)
    with assms(2) 1(1) have "i \<in> set (m_regions g2)" "m_state (heap g2 i) = m_state (heap g1 i)"
      "m_coords (heap g2 i) = m_coords (heap g1 i)"
      unfolding same_islands_def by blast+
    with 1 show "i \<in> set (m_regions g2) \<and> m_state (heap g2 i) = m_state (heap g i)
              \<and> m_coords (heap g2 i) = m_coords (heap g i)" by simp
  qed
  have 4: "\<forall>i\<in>set (m_regions g2). \<not> black (heap g2 i) \<longrightarrow> i \<in> set (m_regions g)"
  proof (intro ballI impI)
    fix i assume i: "i \<in> set (m_regions g2)" "\<not> black (heap g2 i)"
    with assms(2) have 1: "i \<in> set (m_regions g1)" unfolding same_islands_def by blast
    from assms(2) i(2) have "\<not> black (heap g1 i)" unfolding same_islands_def by blast
    with assms(1) 1 show "i \<in> set (m_regions g)" unfolding same_islands_def by blast
  qed
  have 5: "\<forall>i. black (heap g i) \<longrightarrow> black (heap g2 i)"
    using assms(1,2) unfolding same_islands_def by blast
  show ?thesis unfolding same_islands_def by (intro conjI 1 2 3 4 5)
qed

lemma fuse_same_islands:
  assumes "pointers_ok g" and "regions_ok g"
    and "region g x y = Some a" and "black (heap g a)"
  shows "same_islands g (fuse_regions g (region g x y) (region g c d))"
proof (cases "\<exists>b. region g c d = Some b \<and> a \<noteq> b \<and> black (heap g b)")
  case False
  have "\<not> numbered (heap g a)" using assms(4) by (rule black_not_numbered)
  with False assms(3,4) have "fuse_regions g (region g x y) (region g c d) = g"
    by (auto simp: fuse_regions_def split: option.splits)
  then show ?thesis by (simp add: same_islands_refl)
next
  case True
  then obtain b where b: "region g c d = Some b" "a \<noteq> b" "black (heap g b)" by blast
  have nn: "\<not> numbered (heap g a)" "\<not> numbered (heap g b)"
    using assms(4) b(3) by (simp_all add: black_not_numbered)
  define r1 r2 where "r1 = (if size_R (heap g b) > size_R (heap g a) then b else a)"
    and "r2 = (if size_R (heap g b) > size_R (heap g a) then a else b)"
  have r12: "r1 \<noteq> r2" "black (heap g r1)" "black (heap g r2)"
    "r1 \<in> set (m_regions g)" "r2 \<in> set (m_regions g)"
    using b assms(3,4) pointers_okD(1) [OF assms(1) assms(3)] pointers_okD(1) [OF assms(1) b(1)]
    by (auto simp: r1_def r2_def)
  let ?primary = "(heap g r1)\<lparr>m_coords := m_coords (heap g r1) \<union> m_coords (heap g r2),
                 m_unknowns := m_unknowns (heap g r1) \<union> m_unknowns (heap g r2)\<rparr>"
  let ?g' = "g\<lparr>m_cells := repoint r1 (sorted_list_of_set (m_coords (heap g r2))) (m_cells g),
               m_regions := removeAll r2 (m_regions g),
               heap := (heap g)(r1 := ?primary)\<rparr>"
  have f: "fuse_regions g (region g x y) (region g c d) = ?g'"
    using assms(3,4) b nn by (auto simp: fuse_regions_def Let_def r1_def r2_def)
  from assms(1) r12 have fin: "finite (m_coords (heap g r2))" by (auto simp: pointers_ok_def)
  have reg: "region ?g' u v = (if (u, v) \<in> m_coords (heap g r2) then Some r1 else region g u v)"
    for u v using fin by (simp add: region_def repoint_apply)
  have in2: "region g u v = Some r2" if "(u, v) \<in> m_coords (heap g r2)" for u v
    using regions_okD(3) [OF assms(2) r12(5) that] .
  have 1: "\<forall>u v i. region g u v = Some i \<and> \<not> black (heap g i) \<longrightarrow> region ?g' u v = Some i"
  proof (intro allI impI)
    fix u v i assume r: "region g u v = Some i \<and> \<not> black (heap g i)"
    have "(u, v) \<notin> m_coords (heap g r2)"
    proof
      assume "(u, v) \<in> m_coords (heap g r2)"
      from in2 [OF this] r r12(3) show False by simp
    qed
    with r show "region ?g' u v = Some i" by (simp add: reg)
  qed
  have 2: "\<forall>u v. region g u v = None \<or> (\<exists>i. region g u v = Some i \<and> black (heap g i)) \<longrightarrow>
            region ?g' u v = None \<or> (\<exists>i. region ?g' u v = Some i \<and> black (heap ?g' i))"
  proof (intro allI impI)
    fix u v assume "region g u v = None \<or> (\<exists>i. region g u v = Some i \<and> black (heap g i))"
    then show "region ?g' u v = None \<or> (\<exists>i. region ?g' u v = Some i \<and> black (heap ?g' i))"
      using r12(2) unfolding reg by (auto simp: black_def)
  qed
  have 3: "\<forall>i\<in>set (m_regions g). \<not> black (heap g i) \<longrightarrow>
            i \<in> set (m_regions ?g') \<and> m_state (heap ?g' i) = m_state (heap g i)
              \<and> m_coords (heap ?g' i) = m_coords (heap g i)"
    using r12 by auto
  have 4: "\<forall>i\<in>set (m_regions ?g'). \<not> black (heap ?g' i) \<longrightarrow> i \<in> set (m_regions g)"
    by auto
  have 5: "\<forall>i. black (heap g i) \<longrightarrow> black (heap ?g' i)"
    by (simp add: black_def)
  show ?thesis unfolding f same_islands_def by (intro conjI 1 2 3 4 5)
qed

lemma fold_fuse_same_islands:
  assumes "pointers_ok g" and "regions_ok g"
    and "\<exists>a. region g x y = Some a \<and> black (heap g a)"
  shows "same_islands g
           (fold (\<lambda>(a, b) g'. fuse_regions g' (region g' x y) (region g' a b)) ps g)"
  using assms
proof (induction ps arbitrary: g)
  case Nil
  then show ?case by (simp add: same_islands_refl)
next
  case (Cons p ps)
  obtain c d where p: "p = (c, d)" by (cases p)
  from Cons.prems(3) obtain a where a: "region g x y = Some a" "black (heap g a)" by blast
  let ?g1 = "fuse_regions g (region g x y) (region g c d)"
  have s1: "same_islands g ?g1" using Cons.prems(1,2) a by (rule fuse_same_islands)
  have p1: "pointers_ok ?g1"
    using Cons.prems(1) region_option [OF Cons.prems(1)]
    by (intro pointers_ok_fuse_regions) auto
  have q1: "regions_ok ?g1"
    using Cons.prems(1,2) region_option [OF Cons.prems(1)]
    by (intro regions_ok_fuse_regions) auto
  have b1: "\<exists>a. region ?g1 x y = Some a \<and> black (heap ?g1 a)"
    using fuse_regions_black [OF a, of "region g c d"] a by blast
  from Cons.IH [OF p1 q1 b1]
  have "same_islands ?g1
          (fold (\<lambda>(a, b) g'. fuse_regions g' (region g' x y) (region g' a b)) ps ?g1)" .
  with s1 have "same_islands g
          (fold (\<lambda>(a, b) g'. fuse_regions g' (region g' x y) (region g' a b)) ps ?g1)"
    using Cons.prems(1) by (rule same_islands_trans)
  then show ?case by (simp add: p)
qed

lemma mark_black_same_islands:
  assumes "pointers_ok g" and "regions_ok g"
    and "cell g x y = UNKNOWN" and "mark BLACK x y g = Inr g'"
  shows "same_islands g g'"
proof -
  let ?n = "heap_next g"
  let ?h = "fold (\<lambda>i h. h(i := unk_erase (h i) x y)) (m_regions g) (heap g)"
  let ?g2 = "g\<lparr>m_cells := (m_cells g)((x, y) := (BLACK, region g x y)), heap := ?h\<rparr>"
  from assms(3,4) obtain g3 where a: "add_region ?g2 x y = Inr g3"
    and g': "g' = fold (\<lambda>(a, b) g'. fuse_regions g' (region g' x y) (region g' a b))
                      (for_valid_neighbors g3 x y) g3"
    by (auto simp: mark_def Let_def split: if_splits sum.splits)
  have he: "?h i = (if i \<in> set (m_regions g) then unk_erase (heap g i) x y else heap g i)" for i
    by (simp add: fold_unk_erase)
  have h: "\<forall>i. m_coords (?h i) = m_coords (heap g i) \<and> m_state (?h i) = m_state (heap g i)"
    unfolding he by (simp add: unk_erase_def)
  have bl: "black (?h i) = black (heap g i)" for i using h by (simp add: black_def)
  let ?r = "\<lparr>m_state = BLACK, m_coords = {(x, y)},
             m_unknowns = insert_valid_unknown_neighbors ?g2 {} x y\<rparr>"
  from a have g3: "g3 = g\<lparr>m_cells := (m_cells g)((x, y) := (BLACK, Some ?n)),
                 m_regions := insort_insert ?n (m_regions g),
                 heap := ?h(?n := ?r),
                 heap_next := Suc ?n\<rparr>"
    by (auto simp: add_region_def Region_ctor_def cell_def BLACK_def UNKNOWN_def split: if_splits)
  have fresh: "i \<noteq> ?n" if "i \<in> set (m_regions g)" for i
    using assms(1) that by (auto simp: pointers_ok_def)
  have none: "region g x y = None" using regions_okD(2) [OF assms(2), of x y] assms(3) by simp
  have 1: "\<forall>u v i. region g u v = Some i \<and> \<not> black (heap g i) \<longrightarrow> region g3 u v = Some i"
  proof (intro allI impI)
    fix u v i assume r: "region g u v = Some i \<and> \<not> black (heap g i)"
    with none have "(u, v) \<noteq> (x, y)" by auto
    with r show "region g3 u v = Some i" by (auto simp: g3 region_def)
  qed
  have 2: "\<forall>u v. region g u v = None \<or> (\<exists>i. region g u v = Some i \<and> black (heap g i)) \<longrightarrow>
            region g3 u v = None \<or> (\<exists>i. region g3 u v = Some i \<and> black (heap g3 i))"
  proof (intro allI impI)
    fix u v assume d: "region g u v = None \<or> (\<exists>i. region g u v = Some i \<and> black (heap g i))"
    show "region g3 u v = None \<or> (\<exists>i. region g3 u v = Some i \<and> black (heap g3 i))"
    proof (cases "(u, v) = (x, y)")
      case True
      then show ?thesis by (simp add: g3 region_def black_def)
    next
      case False
      then have r: "region g3 u v = region g u v" by (auto simp: g3 region_def)
      from d show ?thesis
      proof
        assume "region g u v = None"
        with r show ?thesis by simp
      next
        assume "\<exists>i. region g u v = Some i \<and> black (heap g i)"
        then obtain i where i: "region g u v = Some i" "black (heap g i)" by blast
        from pointers_okD(1) [OF assms(1) i(1)] fresh have "i \<noteq> ?n" by blast
        with i bl [of i] r show ?thesis by (simp add: g3)
      qed
    qed
  qed
  have 3: "\<forall>i\<in>set (m_regions g). \<not> black (heap g i) \<longrightarrow>
            i \<in> set (m_regions g3) \<and> m_state (heap g3 i) = m_state (heap g i)
              \<and> m_coords (heap g3 i) = m_coords (heap g i)"
  proof (intro ballI impI)
    fix i assume i: "i \<in> set (m_regions g)" "\<not> black (heap g i)"
    with fresh [OF i(1)] h
    show "i \<in> set (m_regions g3) \<and> m_state (heap g3 i) = m_state (heap g i)
              \<and> m_coords (heap g3 i) = m_coords (heap g i)"
      by (simp add: g3 set_insort_insert)
  qed
  have 4: "\<forall>i\<in>set (m_regions g3). \<not> black (heap g3 i) \<longrightarrow> i \<in> set (m_regions g)"
  proof (intro ballI impI)
    fix i assume "i \<in> set (m_regions g3)" "\<not> black (heap g3 i)"
    then show "i \<in> set (m_regions g)"
      by (cases "i = ?n") (auto simp: g3 set_insort_insert black_def)
  qed
  have 5: "\<forall>i. black (heap g i) \<longrightarrow> black (heap g3 i)"
  proof (intro allI impI)
    fix i assume "black (heap g i)"
    with bl [of i] show "black (heap g3 i)" by (simp add: g3 black_def)
  qed
  have s3: "same_islands g g3" unfolding same_islands_def by (intro conjI 1 2 3 4 5)
  have b: "BLACK \<noteq> UNKNOWN" by (simp add: BLACK_def UNKNOWN_def)
  have q3: "regions_ok g3" using assms(1,2,3) b h a by (rule regions_ok_place)
  have c2: "m_coords (heap ?g2 i) = m_coords (heap g i)" for i using h by simp
  have r2: "region ?g2 a b = region g a b" for a b by (simp add: region_def)
  have "pointers_ok ?g2"
    unfolding pointers_ok_def c2 r2 using assms(1) by (simp add: pointers_ok_def)
  then have p3: "pointers_ok g3" using a by (rule pointers_ok_add_region)
  have b3: "\<exists>a. region g3 x y = Some a \<and> black (heap g3 a)"
    by (simp add: g3 region_def black_def)
  from fold_fuse_same_islands [OF p3 q3 b3, of "for_valid_neighbors g3 x y"]
  have "same_islands g3 g'" unfolding g' .
  with s3 show ?thesis using assms(1) by (rule same_islands_trans)
qed

lemma mark_all_black_same_islands:
  assumes "pointers_ok g" and "regions_ok g" and "distinct ps"
    and "\<forall>(x, y)\<in>set ps. cell g x y = UNKNOWN" and "mark_all BLACK ps g = Inr g'"
  shows "same_islands g g'"
  using assms
proof (induction ps arbitrary: g)
  case Nil
  then show ?case by (simp add: same_islands_refl)
next
  case (Cons p ps)
  obtain x y where p: "p = (x, y)" by (cases p)
  from Cons.prems(5) p obtain g1 where m: "mark BLACK x y g = Inr g1"
    and r: "mark_all BLACK ps g1 = Inr g'" by (auto split: sum.splits)
  from Cons.prems(4) p have u: "cell g x y = UNKNOWN" by simp
  have s1: "same_islands g g1" using Cons.prems(1,2) u m by (rule mark_black_same_islands)
  have p1: "pointers_ok g1" using Cons.prems(1) m by (rule pointers_ok_mark)
  have q1: "regions_ok g1" using Cons.prems(1,2) m by (rule regions_ok_mark)
  have d: "distinct ps" using Cons.prems(3) by simp
  have u1: "\<forall>(a, b)\<in>set ps. cell g1 a b = UNKNOWN"
    using Cons.prems(3,4) p mark_cell [OF m] by auto
  from Cons.IH [OF p1 q1 d u1 r] have "same_islands g1 g'" .
  with s1 show ?case using Cons.prems(1) by (rule same_islands_trans)
qed

lemma black_not_white: "black r \<Longrightarrow> \<not> white r"
  by (simp add: black_def white_def BLACK_def WHITE_def)

lemma same_islands_state:
  assumes "same_islands g g'" and "i \<in> set (m_regions g)" and "\<not> black (heap g i)"
  shows "m_state (heap g' i) = m_state (heap g i)" and "m_coords (heap g' i) = m_coords (heap g i)"
    and "i \<in> set (m_regions g')"
  using assms unfolding same_islands_def by blast+

lemma adjacent_regions_same:
  assumes "same_islands g g'" and "pointers_ok g"
    and "m_width g' = m_width g" and "m_height g' = m_height g"
  shows "adjacent_regions g' x y = adjacent_regions g x y"
proof -
  let ?f = "\<lambda>g (x, y) (white_regions, numbered_regions).
             case region g x y of
               None \<Rightarrow> (white_regions, numbered_regions)
             | Some r \<Rightarrow>
                 if white (heap g r) then (insert r white_regions, numbered_regions)
                 else if numbered (heap g r) then (white_regions, insert r numbered_regions)
                 else (white_regions, numbered_regions)"
  have "?f g' p acc = ?f g p acc" for p acc
  proof -
    obtain a b where p: "p = (a, b)" by (cases p)
    obtain w nr where acc: "acc = (w, nr)" by (cases acc)
    have dark: "?f g'' (a, b) (w, nr) = (w, nr)"
      if "region g'' a b = None \<or> (\<exists>i. region g'' a b = Some i \<and> black (heap g'' i))" for g''
      using that by (auto simp: black_not_white black_not_numbered)
    show ?thesis
    proof (cases "region g a b = None \<or> (\<exists>i. region g a b = Some i \<and> black (heap g i))")
      case True
      with assms(1) have "region g' a b = None \<or> (\<exists>i. region g' a b = Some i \<and> black (heap g' i))"
        unfolding same_islands_def by blast
      from dark [OF this] dark [OF True] show ?thesis unfolding p acc by simp
    next
      case False
      then obtain i where i: "region g a b = Some i" "\<not> black (heap g i)" by auto
      with assms(1) have r': "region g' a b = Some i" unfolding same_islands_def by blast
      from pointers_okD(1) [OF assms(2) i(1)] have "i \<in> set (m_regions g)" .
      from same_islands_state(1) [OF assms(1) this i(2)]
      have "white (heap g' i) = white (heap g i)" "numbered (heap g' i) = numbered (heap g i)"
        by (simp_all add: white_def numbered_def)
      with i(1) r' show ?thesis unfolding p acc by simp
    qed
  qed
  then have "?f g' = ?f g" by (intro ext)
  moreover have "for_valid_neighbors g' x y = for_valid_neighbors g x y"
    using assms(3,4) by (simp add: for_valid_neighbors_def)
  ultimately show ?thesis by (simp add: adjacent_regions_def)
qed

lemma adjacent_regions_fold_members:
  assumes "fold (\<lambda>(x, y) (white_regions, numbered_regions).
             case region g x y of
               None \<Rightarrow> (white_regions, numbered_regions)
             | Some r \<Rightarrow>
                 if white (heap g r) then (insert r white_regions, numbered_regions)
                 else if numbered (heap g r) then (white_regions, insert r numbered_regions)
                 else (white_regions, numbered_regions)) ps (w0, nr0) = (w, nr)"
    and "i \<in> w \<union> nr"
  shows "i \<in> w0 \<union> nr0 \<or> (\<exists>a b. region g a b = Some i \<and> \<not> black (heap g i))"
  using assms
proof (induction ps arbitrary: w0 nr0)
  case Nil
  then show ?case by simp
next
  case (Cons p ps)
  obtain a b where p: "p = (a, b)" by (cases p)
  show ?case
  proof (cases "region g a b")
    case None
    with Cons.prems p Cons.IH [of w0 nr0] show ?thesis by simp
  next
    case (Some r)
    show ?thesis
    proof (cases "white (heap g r)")
      case True
      with Cons.prems p Some Cons.IH [of "insert r w0" nr0]
      have "i \<in> insert r w0 \<union> nr0 \<or> (\<exists>a b. region g a b = Some i \<and> \<not> black (heap g i))"
        by simp
      with True Some black_not_white show ?thesis by blast
    next
      case nw: False
      show ?thesis
      proof (cases "numbered (heap g r)")
        case True
        with nw Cons.prems p Some Cons.IH [of w0 "insert r nr0"]
        have "i \<in> w0 \<union> insert r nr0 \<or> (\<exists>a b. region g a b = Some i \<and> \<not> black (heap g i))"
          by simp
        with True Some black_not_numbered show ?thesis by blast
      next
        case False
        with nw Cons.prems p Some Cons.IH [of w0 nr0] show ?thesis by simp
      qed
    qed
  qed
qed

lemma adjacent_regions_members:
  assumes "adjacent_regions g x y = (w, nr)" and "i \<in> w \<union> nr" and "pointers_ok g"
  shows "i \<in> set (m_regions g) \<and> \<not> black (heap g i)"
proof -
  from adjacent_regions_fold_members [OF assms(1) [unfolded adjacent_regions_def] assms(2)]
  obtain a b where "region g a b = Some i" "\<not> black (heap g i)" by auto
  with pointers_okD(1) [OF assms(3)] show ?thesis by blast
qed

lemma impossibly_big_same:
  assumes "same_islands g g'"
  shows "impossibly_big_white_region g' k = impossibly_big_white_region g k"
proof -
  have "(\<exists>i\<in>set (m_regions g'). numbered (heap g' i)
            \<and> size_R (heap g' i) + k + 1 \<le> number (heap g' i))
        \<longleftrightarrow> (\<exists>i\<in>set (m_regions g). numbered (heap g i)
            \<and> size_R (heap g i) + k + 1 \<le> number (heap g i))"
  proof
    assume "\<exists>i\<in>set (m_regions g'). numbered (heap g' i)
            \<and> size_R (heap g' i) + k + 1 \<le> number (heap g' i)"
    then obtain i where i: "i \<in> set (m_regions g')" "numbered (heap g' i)"
      "size_R (heap g' i) + k + 1 \<le> number (heap g' i)" by blast
    from i(2) have nb': "\<not> black (heap g' i)" using black_not_numbered by blast
    with assms i(1) have m: "i \<in> set (m_regions g)" unfolding same_islands_def by blast
    from assms nb' have nb: "\<not> black (heap g i)" unfolding same_islands_def by blast
    from same_islands_state(1,2) [OF assms m nb] i(2,3)
    have "numbered (heap g i) \<and> size_R (heap g i) + k + 1 \<le> number (heap g i)"
      by (simp add: numbered_def size_R_def number_def)
    with m show "\<exists>i\<in>set (m_regions g). numbered (heap g i)
            \<and> size_R (heap g i) + k + 1 \<le> number (heap g i)" by blast
  next
    assume "\<exists>i\<in>set (m_regions g). numbered (heap g i)
            \<and> size_R (heap g i) + k + 1 \<le> number (heap g i)"
    then obtain i where i: "i \<in> set (m_regions g)" "numbered (heap g i)"
      "size_R (heap g i) + k + 1 \<le> number (heap g i)" by blast
    from i(2) have nb: "\<not> black (heap g i)" using black_not_numbered by blast
    from same_islands_state [OF assms i(1) nb] i(2,3)
    have "i \<in> set (m_regions g')" "numbered (heap g' i)
             \<and> size_R (heap g' i) + k + 1 \<le> number (heap g' i)"
      by (simp_all add: numbered_def size_R_def number_def)
    then show "\<exists>i\<in>set (m_regions g'). numbered (heap g' i)
            \<and> size_R (heap g' i) + k + 1 \<le> number (heap g' i)" by blast
  qed
  then show ?thesis by (simp add: impossibly_big_white_region_def list_ex_iff)
qed

lemma accepts_expands_same:
  assumes "same_islands g g'" and "pointers_ok g"
    and "m_width g' = m_width g" and "m_height g' = m_height g"
  shows "accepts g' c n = accepts g c n" and "expands g' c = expands g c"
proof -
  obtain w nr where a: "adjacent_regions g (fst c) (snd c) = (w, nr)"
    by (cases "adjacent_regions g (fst c) (snd c)")
  with adjacent_regions_same [OF assms] have a': "adjacent_regions g' (fst c) (snd c) = (w, nr)"
    by simp
  from a a' show "expands g' c = expands g c" by (simp add: expands_def)
  have sz: "size_R (heap g' i) = size_R (heap g i)" "number (heap g' i) = number (heap g i)"
    if "i \<in> w \<union> nr" for i
  proof -
    from adjacent_regions_members [OF a that assms(2)]
    have "i \<in> set (m_regions g)" "\<not> black (heap g i)" by simp_all
    from same_islands_state(1,2) [OF assms(1) this]
    show "size_R (heap g' i) = size_R (heap g i)" "number (heap g' i) = number (heap g i)"
      by (simp_all add: size_R_def number_def)
  qed
  have sum: "(\<Sum>i\<in>w. size_R (heap g' i)) + (\<Sum>i\<in>nr. size_R (heap g' i))
           = (\<Sum>i\<in>w. size_R (heap g i)) + (\<Sum>i\<in>nr. size_R (heap g i))"
    using sz(1) by (simp cong: sum.cong)
  have num: "number (heap g' (Min nr)) = number (heap g (Min nr))" if "card nr = 1"
  proof -
    from that have "finite nr" "nr \<noteq> {}" by (auto simp: card_eq_0_iff intro: card_ge_0_finite)
    then have "Min nr \<in> nr" by (rule Min_in)
    then show ?thesis using sz(2) by simp
  qed
  show "accepts g' c n = accepts g c n"
    unfolding accepts_def a a' using num
    by (simp add: Let_def sum impossibly_big_same [OF assms(1)])
qed

lemma walk_transfer:
  assumes "walk g {} c n" and "1 \<le> n" and "valid g (fst c) (snd c)"
    and "\<And>c n. accepts g' c n = accepts g c n" and "\<And>c. expands g' c = expands g c"
    and "m_width g' = m_width g" and "m_height g' = m_height g"
    and "\<And>c. valid g (fst c) (snd c) \<Longrightarrow> walk g {} c 1 \<Longrightarrow> cell g' (fst c) (snd c) = UNKNOWN"
  shows "walk g' {} c n"
  using assms(1,2,3)
proof (induction rule: walk.induct)
  case (arrive c n)
  from arrive.hyps have "walk g {} c n" by (rule walk.arrive)
  from walk_mono [OF this arrive.prems(1)] arrive.prems(2)
  have "cell g' (fst c) (snd c) = UNKNOWN" by (intro assms(8))
  with arrive.hyps(2) show ?case by (intro walk.arrive) (simp_all add: assms(4))
next
  case (move c c' n)
  from move.hyps have "walk g {} c n" by (rule walk.move)
  from walk_mono [OF this move.prems(1)] move.prems(2)
  have u: "cell g' (fst c) (snd c) = UNKNOWN" by (intro assms(8))
  have e: "expands g' c" using move.hyps(2) by (simp add: assms(5))
  have nb: "c' \<in> set (for_valid_neighbors g' (fst c) (snd c))"
    using move.hyps(3) assms(6,7) by (simp add: for_valid_neighbors_def)
  have "valid g (fst c') (snd c')"
    using valid_for_valid_neighbors [OF move.prems(2), of "fst c'" "snd c'"] move.hyps(3) by simp
  with move.IH move.prems(1) have "walk g' {} c' (n + 1)" by simp
  with u e nb show ?case by (intro walk.move [of g' c c']) simp_all
qed

lemma mark_all_frame:
  assumes "mark_all s ps g = Inr g'"
  shows "m_width g' = m_width g \<and> m_height g' = m_height g
       \<and> m_total_black g' = m_total_black g"
  using assms
proof (induction ps arbitrary: g)
  case Nil
  then show ?case by simp
next
  case (Cons p ps)
  obtain x y where p: "p = (x, y)" by (cases p)
  from Cons.prems p obtain g1 where m: "mark s x y g = Inr g1" and r: "mark_all s ps g1 = Inr g'"
    by (auto split: sum.splits)
  from Cons.IH [OF r] mark_frame [OF m] show ?case by simp
qed

lemma finite_unreachable_set: "finite (unreachable_set g)"
  by (rule finite_subset [OF _ finite_valid [of g]]) (auto simp: unreachable_set_def)

lemma unreachable_cells_twice:
  assumes "pointers_ok g" and "regions_ok g" and "enough_fuel g \<le> fuel"
  shows "\<exists>b g'. analyze_unreachable_cells fuel g = Inr (b, g')
            \<and> analyze_unreachable_cells fuel g' = Inr (False, g')"
proof (cases "unreachable_set g = {}")
  case True
  with analyze_unreachable_cells_eq [OF assms(3)]
  have "analyze_unreachable_cells fuel g = Inr (False, g)" by (simp add: process_nothing)
  then show ?thesis by blast
next
  case False
  let ?U = "unreachable_set g"
  let ?ps = "sorted_list_of_set ?U"
  note fin = finite_unreachable_set [of g]
  obtain g' where m: "mark_all BLACK ?ps g = Inr g'"
    using mark_all_total [of BLACK] by blast
  with False have p: "process g ?U {} = Inr (True, g')" by (simp add: process_def)
  have d: "distinct ?ps" and s: "set ?ps = ?U" using fin by simp_all
  have u: "\<forall>(x, y)\<in>set ?ps. cell g x y = UNKNOWN"
    unfolding s by (auto simp: unreachable_set_def)
  have same: "same_islands g g'" using assms(1,2) d u m by (rule mark_all_black_same_islands)
  from mark_all_frame [OF m] have dims: "m_width g' = m_width g" "m_height g' = m_height g"
    by simp_all
  then have f': "enough_fuel g' \<le> fuel" using assms(3) by (simp add: enough_fuel_def)
  have v': "valid g' a b = valid g a b" for a b using dims by (simp add: valid_def)
  have cells: "cell g' a b = (if (a, b) \<in> ?U then BLACK else cell g a b)" for a b
    using mark_all_cell [OF m, of a b] s u by auto
  have keep: "cell g' (fst c) (snd c) = UNKNOWN" if "valid g (fst c) (snd c)" "walk g {} c 1" for c
  proof -
    from that(2) have "c \<notin> ?U" by (simp add: unreachable_set_def)
    with cells [of "fst c" "snd c"] walk_unknown [OF that(2)] show ?thesis by simp
  qed
  have "unreachable_set g' = {}"
  proof (rule ccontr)
    assume "unreachable_set g' \<noteq> {}"
    then obtain c where c: "valid g' (fst c) (snd c)" "cell g' (fst c) (snd c) = UNKNOWN"
      "\<not> walk g' {} c 1" by (auto simp: unreachable_set_def)
    from c(2) cells [of "fst c" "snd c"] have nu: "c \<notin> ?U" and cu: "cell g (fst c) (snd c) = UNKNOWN"
      by (auto simp: BLACK_def UNKNOWN_def split: if_splits)
    from c(1) have vc: "valid g (fst c) (snd c)" by (simp add: v')
    with nu cu have w: "walk g {} c 1" by (simp add: unreachable_set_def)
    have "walk g' {} c 1"
      using w _ vc accepts_expands_same [OF same assms(1) dims] dims keep
      by (rule walk_transfer) simp_all
    with c(3) show False by simp
  qed
  with analyze_unreachable_cells_eq [OF f'] have "analyze_unreachable_cells fuel g' = Inr (False, g')"
    by (simp add: process_nothing)
  moreover from analyze_unreachable_cells_eq [OF assms(3)] p
  have "analyze_unreachable_cells fuel g = Inr (True, g')" by simp
  ultimately show ?thesis by blast
qed

subsection \<open>The rules that propose nothing twice\<close>




end
